theory Spec2Isabelle
  imports Main "HOL-Library.AList" "HOL-Library.Char_ord" "HOL-Library.List_Lexorder"
    "HOL-Library.Product_Lexorder" "HOL-Library.Multiset"
begin

section \<open>Documents\<close>

text \<open>
  The program \<open>task_3_1\<close> hands one aggregation pipeline to the document store and returns
  the rows the store answers with. The pipeline is data (a list of stage documents), so it
  is embedded as data, stage by stage as the source writes it, together with an
  interpreter for the operators the pipeline uses.

  A stored value is null, a boolean, a number, a string, an object id, an array or a
  document; a document is a list of fields in their stored order. A field that is absent
  is \<open>None\<close> wherever a lookup may miss. Numbers are integers (the pipeline's constants
  105, 147, 50 and 9000 are).
\<close>

datatype val =
    VNull
  | VBool bool
  | VNum int
  | VStr string
  | VOid string
  | VArr "val list"
  | VDoc "(string \<times> val) list"

type_synonym doc = "(string \<times> val) list"

text \<open>A database maps a collection name to its documents, in natural order.\<close>

type_synonym db = "string \<Rightarrow> doc list"

text \<open>
  The one run-time failure an operator of this pipeline has: \<open>$arrayElemAt\<close> rejects a
  first operand that is neither an array nor null nor missing, and the whole query fails.
\<close>

datatype error = ArrayElemAtNotArray

fun is_doc :: "val \<Rightarrow> bool" where
  "is_doc (VDoc d) = True"
| "is_doc v = False"

subsection \<open>The order of values\<close>

text \<open>
  The store compares values of different types by type bracket
  (missing, null, numbers, strings, documents, arrays, object ids, booleans) and values of
  one type by content; documents field by field (type of the value, name, value) and arrays
  element by element, a proper prefix being smaller. \<open>enc\<close> writes a value as a list of
  tokens whose lexicographic order is that order.
\<close>

type_synonym tok = "nat \<times> int \<times> string"

fun rank :: "val \<Rightarrow> nat" where
  "rank VNull = 5"
| "rank (VNum n) = 10"
| "rank (VStr s) = 15"
| "rank (VDoc d) = 20"
| "rank (VArr xs) = 25"
| "rank (VOid s) = 35"
| "rank (VBool b) = 40"

fun enc :: "val \<Rightarrow> tok list" where
  "enc VNull = [(5, 0, [])]"
| "enc (VNum n) = [(10, n, [])]"
| "enc (VStr s) = [(15, 0, s)]"
| "enc (VDoc d) =
     (20, 0, []) # concat (map (\<lambda>(k, v). (rank v, 0, k) # enc v) d) @ [(0, 0, [])]"
| "enc (VArr xs) =
     (25, 0, []) # concat (map (\<lambda>x. (1, 0, []) # enc x) xs) @ [(0, 0, [])]"
| "enc (VOid s) = [(35, 0, s)]"
| "enc (VBool b) = [(40, (if b then 1 else 0), [])]"

text \<open>In an expression a missing operand is smaller than null.\<close>

fun enc_opt :: "val option \<Rightarrow> tok list" where
  "enc_opt None = [(3, 0, [])]"
| "enc_opt (Some v) = enc v"

definition cmp_val :: "val option \<Rightarrow> val option \<Rightarrow> int" where
  "cmp_val a b =
     (if enc_opt a < enc_opt b then - 1 else if enc_opt b < enc_opt a then 1 else 0)"

subsection \<open>Paths\<close>

text \<open>
  A dotted path \<open>a.b.c\<close> is the list of its components. \<open>get_nested\<close> follows a path
  through embedded documents only (the way \<open>$unwind\<close> and \<open>$sort\<close> read their path);
  \<open>set_nested\<close> replaces the value at a path that \<open>get_nested\<close> reaches.
\<close>

fun get_nested :: "string list \<Rightarrow> doc \<Rightarrow> val option" where
  "get_nested [] d = None"
| "get_nested [k] d = map_of d k"
| "get_nested (k # ks) d =
     (case map_of d k of Some (VDoc d') \<Rightarrow> get_nested ks d' | _ \<Rightarrow> None)"

fun set_nested :: "string list \<Rightarrow> val \<Rightarrow> doc \<Rightarrow> doc" where
  "set_nested [] v d = d"
| "set_nested [k] v d = AList.update k v d"
| "set_nested (k # ks) v d =
     (case map_of d k of
        Some (VDoc d') \<Rightarrow> AList.update k (VDoc (set_nested ks v d')) d
      | _ \<Rightarrow> d)"

text \<open>
  A field path in an expression (\<open>"$a.b.c"\<close>): through a document it descends, through an
  array it collects the values its document elements have at the rest of the path
  (elements without one are skipped), anything else on the way makes the path missing.
\<close>

fun epath :: "string list \<Rightarrow> doc \<Rightarrow> val option"
  and epath_arr :: "string list \<Rightarrow> val list \<Rightarrow> val list" where
  "epath [] d = Some (VDoc d)"
| "epath [k] d = map_of d k"
| "epath (k # k' # ks) d =
     (case map_of d k of
        Some (VDoc d') \<Rightarrow> epath (k' # ks) d'
      | Some (VArr xs) \<Rightarrow> Some (VArr (epath_arr (k' # ks) xs))
      | _ \<Rightarrow> None)"
| "epath_arr ks [] = []"
| "epath_arr ks (VDoc d # xs) =
     (case epath ks d of None \<Rightarrow> epath_arr ks xs | Some v \<Rightarrow> v # epath_arr ks xs)"
| "epath_arr ks (x # xs) = epath_arr ks xs"

text \<open>
  A field path in a query (\<open>{"a.b.c": cond}\<close>): through a document it descends, through an
  array it visits every document element; the values it reaches are the candidates the
  condition is tested on, \<open>None\<close> where the field is missing.
\<close>

fun qvals :: "string list \<Rightarrow> val \<Rightarrow> val option list" where
  "qvals [] v = [Some v]"
| "qvals (k # ks) (VDoc d) =
     (case map_of d k of
        None \<Rightarrow> [None]
      | Some v \<Rightarrow>
          (if ks = [] then [Some v]
           else (case v of
                   VArr xs \<Rightarrow> concat (map (qvals ks) (filter is_doc xs))
                 | _ \<Rightarrow> qvals ks v)))"
| "qvals (k # ks) v = [None]"

text \<open>
  A comparison is tested on a candidate and, when the candidate is an array, on each of its
  elements too.
\<close>

fun leaf :: "val option \<Rightarrow> val option list" where
  "leaf (Some (VArr xs)) = Some (VArr xs) # map Some xs"
| "leaf c = [c]"

definition leaves :: "val option list \<Rightarrow> val option list" where
  "leaves cs = concat (map leaf cs)"

section \<open>Expressions\<close>

datatype expr =
    EPath "string list"
  | EVar string
  | ELit val
  | EIfNull expr expr
  | EEq expr expr
  | ECmp expr expr
  | EAnd "expr list"
  | EOr "expr list"
  | EArrayElemAt expr int
  | EObj "(string \<times> expr) list"

type_synonym env = "(string \<times> val option) list"

fun truthy :: "val option \<Rightarrow> bool" where
  "truthy None = False"
| "truthy (Some VNull) = False"
| "truthy (Some (VBool b)) = b"
| "truthy (Some (VNum n)) = (n \<noteq> 0)"
| "truthy (Some v) = True"

text \<open>
  \<open>$arrayElemAt\<close>: null for a null or missing array, a failure for any other non-array,
  missing for an index out of bounds; a negative index counts from the end.
\<close>

fun array_elem_at :: "val option \<Rightarrow> int \<Rightarrow> error + val option" where
  "array_elem_at None i = Inr (Some VNull)"
| "array_elem_at (Some VNull) i = Inr (Some VNull)"
| "array_elem_at (Some (VArr xs)) i =
     (if 0 \<le> i then (if nat i < length xs then Inr (Some (xs ! nat i)) else Inr None)
      else (if nat (- i) \<le> length xs then Inr (Some (xs ! (length xs - nat (- i))))
            else Inr None))"
| "array_elem_at (Some v) i = Inl ArrayElemAtNotArray"

text \<open>
  \<open>$ifNull\<close> evaluates its replacement only when the first operand is null or missing;
  \<open>$and\<close> and \<open>$or\<close> stop at the first operand that decides them. A field of an
  object expression whose value is missing is left out of the object.
\<close>

fun eval :: "env \<Rightarrow> doc \<Rightarrow> expr \<Rightarrow> error + val option"
  and eval_and :: "env \<Rightarrow> doc \<Rightarrow> expr list \<Rightarrow> error + bool"
  and eval_or :: "env \<Rightarrow> doc \<Rightarrow> expr list \<Rightarrow> error + bool"
  and eval_obj :: "env \<Rightarrow> doc \<Rightarrow> (string \<times> expr) list \<Rightarrow> error + doc" where
  "eval env d (EPath p) = Inr (epath p d)"
| "eval env d (EVar x) = Inr (case map_of env x of None \<Rightarrow> None | Some r \<Rightarrow> r)"
| "eval env d (ELit v) = Inr (Some v)"
| "eval env d (EIfNull a b) =
     (case eval env d a of
        Inl e \<Rightarrow> Inl e
      | Inr x \<Rightarrow> (if x = None \<or> x = Some VNull then eval env d b else Inr x))"
| "eval env d (EEq a b) =
     (case eval env d a of
        Inl e \<Rightarrow> Inl e
      | Inr x \<Rightarrow> (case eval env d b of Inl e \<Rightarrow> Inl e | Inr y \<Rightarrow> Inr (Some (VBool (x = y)))))"
| "eval env d (ECmp a b) =
     (case eval env d a of
        Inl e \<Rightarrow> Inl e
      | Inr x \<Rightarrow>
          (case eval env d b of Inl e \<Rightarrow> Inl e | Inr y \<Rightarrow> Inr (Some (VNum (cmp_val x y)))))"
| "eval env d (EAnd es) =
     (case eval_and env d es of Inl e \<Rightarrow> Inl e | Inr b \<Rightarrow> Inr (Some (VBool b)))"
| "eval env d (EOr es) =
     (case eval_or env d es of Inl e \<Rightarrow> Inl e | Inr b \<Rightarrow> Inr (Some (VBool b)))"
| "eval env d (EArrayElemAt a i) =
     (case eval env d a of Inl e \<Rightarrow> Inl e | Inr x \<Rightarrow> array_elem_at x i)"
| "eval env d (EObj fs) =
     (case eval_obj env d fs of Inl e \<Rightarrow> Inl e | Inr fd \<Rightarrow> Inr (Some (VDoc fd)))"
| "eval_and env d [] = Inr True"
| "eval_and env d (e # es) =
     (case eval env d e of
        Inl err \<Rightarrow> Inl err
      | Inr x \<Rightarrow> (if truthy x then eval_and env d es else Inr False))"
| "eval_or env d [] = Inr False"
| "eval_or env d (e # es) =
     (case eval env d e of
        Inl err \<Rightarrow> Inl err
      | Inr x \<Rightarrow> (if truthy x then Inr True else eval_or env d es))"
| "eval_obj env d [] = Inr []"
| "eval_obj env d ((k, e) # fs) =
     (case eval env d e of
        Inl err \<Rightarrow> Inl err
      | Inr x \<Rightarrow>
          (case eval_obj env d fs of
             Inl err \<Rightarrow> Inl err
           | Inr fd \<Rightarrow> Inr (case x of None \<Rightarrow> fd | Some v \<Rightarrow> (k, v) # fd)))"

section \<open>Queries\<close>

text \<open>
  A query document is a list of clauses that must all hold. A clause is a field path with
  its operators (all of which must hold), or \<open>$and\<close>, \<open>$or\<close>, \<open>$nor\<close> over query
  documents. A bare value (\<open>"name": "ADP"\<close>) is the operator \<open>QEq\<close>.
\<close>

datatype cond =
    QEq val
  | QIn "val list"
  | QLt int
  | QGte int
  | QNe val
  | QElemMatch "clause list"
and clause =
    QFld "string list" "cond list"
  | QAnd "clause list list"
  | QOr "clause list list"
  | QNor "clause list list"

text \<open>Equality: null also matches a missing field.\<close>

definition eq_match :: "val \<Rightarrow> val option list \<Rightarrow> bool" where
  "eq_match v cs =
     (if v = VNull then list_ex (\<lambda>c. c = None \<or> c = Some VNull) (leaves cs)
      else list_ex (\<lambda>c. c = Some v) (leaves cs))"

fun is_lt :: "int \<Rightarrow> val option \<Rightarrow> bool" where
  "is_lt n (Some (VNum m)) = (m < n)"
| "is_lt n c = False"

fun is_gte :: "int \<Rightarrow> val option \<Rightarrow> bool" where
  "is_gte n (Some (VNum m)) = (n \<le> m)"
| "is_gte n c = False"

fun elems_of :: "val option \<Rightarrow> val list" where
  "elems_of (Some (VArr xs)) = xs"
| "elems_of c = []"

fun m_cond :: "cond \<Rightarrow> val option list \<Rightarrow> bool"
  and m_clause :: "clause \<Rightarrow> val \<Rightarrow> bool" where
  "m_cond (QEq v) cs = eq_match v cs"
| "m_cond (QIn vs) cs = list_ex (\<lambda>v. eq_match v cs) vs"
| "m_cond (QLt n) cs = list_ex (is_lt n) (leaves cs)"
| "m_cond (QGte n) cs = list_ex (is_gte n) (leaves cs)"
| "m_cond (QNe v) cs = (\<not> eq_match v cs)"
| "m_cond (QElemMatch q) cs =
     list_ex (\<lambda>c. list_ex (\<lambda>x. is_doc x \<and> list_all (\<lambda>cl. m_clause cl x) q) (elems_of c)) cs"
| "m_clause (QFld p conds) v = list_all (\<lambda>c. m_cond c (qvals p v)) conds"
| "m_clause (QAnd qs) v = list_all (\<lambda>q. list_all (\<lambda>cl. m_clause cl v) q) qs"
| "m_clause (QOr qs) v = list_ex (\<lambda>q. list_all (\<lambda>cl. m_clause cl v) q) qs"
| "m_clause (QNor qs) v = (\<not> list_ex (\<lambda>q. list_all (\<lambda>cl. m_clause cl v) q) qs)"

definition matches :: "clause list \<Rightarrow> doc \<Rightarrow> bool" where
  "matches q d = list_all (\<lambda>cl. m_clause cl (VDoc d)) q"

section \<open>Stages\<close>

datatype proj = PIncl "string list" | PComp string expr

datatype acc = AFirst expr | APush expr | ASum expr

datatype stage =
    Match "clause list"
  | MatchExpr expr
  | Project "proj list"
  | Unwind "string list"
  | Lookup string "(string \<times> expr) list" "stage list" string
  | Group expr "(string \<times> acc) list"
  | Sort "string list list"

subsection \<open>\<open>$project\<close>\<close>

text \<open>
  An inclusion keeps, of every field on an included path, what lies on the paths: a field
  whose path ends is kept whole; below a longer path a document is pruned field by field,
  an array element by element (an element that is neither document nor array is dropped),
  and any other value is dropped with its field. \<open>_id\<close> is kept unless excluded, and
  this pipeline never excludes it. Fields keep their stored order.
\<close>

definition subpaths :: "string \<Rightarrow> string list list \<Rightarrow> string list list" where
  "subpaths k ps = map tl (filter (\<lambda>p. p \<noteq> [] \<and> hd p = k) ps)"

fun incl_val :: "string list list \<Rightarrow> val \<Rightarrow> val option" where
  "incl_val ps (VDoc d) =
     Some (VDoc (concat (map (\<lambda>(k, v).
        (if subpaths k ps = [] then []
         else if [] \<in> set (subpaths k ps) then [(k, v)]
         else (case incl_val (subpaths k ps) v of None \<Rightarrow> [] | Some v' \<Rightarrow> [(k, v')]))) d)))"
| "incl_val ps (VArr xs) =
     Some (VArr (concat (map (\<lambda>x. case incl_val ps x of None \<Rightarrow> [] | Some v \<Rightarrow> [v]) xs)))"
| "incl_val ps v = None"

definition incl_doc :: "string list list \<Rightarrow> doc \<Rightarrow> doc" where
  "incl_doc ps d = (case incl_val ps (VDoc d) of Some (VDoc d') \<Rightarrow> d' | _ \<Rightarrow> [])"

fun incl_paths :: "proj list \<Rightarrow> string list list" where
  "incl_paths [] = []"
| "incl_paths (PIncl p # ps) = p # incl_paths ps"
| "incl_paths (PComp k e # ps) = incl_paths ps"

text \<open>
  A computed field is evaluated on the stage's input document and written to the top level
  of the output; a missing value writes nothing.
\<close>

fun add_computed :: "env \<Rightarrow> doc \<Rightarrow> proj list \<Rightarrow> doc \<Rightarrow> error + doc" where
  "add_computed env d [] out = Inr out"
| "add_computed env d (PIncl p # ps) out = add_computed env d ps out"
| "add_computed env d (PComp k e # ps) out =
     (case eval env d e of
        Inl err \<Rightarrow> Inl err
      | Inr None \<Rightarrow> add_computed env d ps out
      | Inr (Some v) \<Rightarrow> add_computed env d ps (AList.update k v out))"

definition project_row :: "env \<Rightarrow> proj list \<Rightarrow> doc \<Rightarrow> error + doc" where
  "project_row env ps d = add_computed env d ps (incl_doc ([''_id''] # incl_paths ps) d)"

subsection \<open>\<open>$unwind\<close>\<close>

text \<open>
  Without \<open>preserveNullAndEmptyArrays\<close>: an array gives one row per element, in order,
  the element in the array's place; a missing or null value gives no row; any other value
  is its own single element.
\<close>

definition unwind_row :: "string list \<Rightarrow> doc \<Rightarrow> doc list" where
  "unwind_row p d =
     (case get_nested p d of
        None \<Rightarrow> []
      | Some VNull \<Rightarrow> []
      | Some (VArr xs) \<Rightarrow> map (\<lambda>x. set_nested p x d) xs
      | Some v \<Rightarrow> [d])"

subsection \<open>\<open>$group\<close>\<close>

fun map_err :: "('a \<Rightarrow> error + 'b) \<Rightarrow> 'a list \<Rightarrow> error + 'b list" where
  "map_err f [] = Inr []"
| "map_err f (x # xs) =
     (case f x of
        Inl e \<Rightarrow> Inl e
      | Inr y \<Rightarrow> (case map_err f xs of Inl e \<Rightarrow> Inl e | Inr ys \<Rightarrow> Inr (y # ys)))"

fun or_null :: "val option \<Rightarrow> val" where
  "or_null None = VNull"
| "or_null (Some v) = v"

fun num_of :: "val option \<Rightarrow> int" where
  "num_of (Some (VNum n)) = n"
| "num_of v = 0"

text \<open>
  \<open>$first\<close> is the value of the group's first row (null when missing), \<open>$push\<close> the
  values of its rows in order (a missing value is not pushed), \<open>$sum\<close> the sum of the
  numeric values.
\<close>

fun acc_val :: "env \<Rightarrow> acc \<Rightarrow> doc list \<Rightarrow> error + val" where
  "acc_val env (AFirst e) rows =
     (case rows of
        [] \<Rightarrow> Inr VNull
      | r # rs \<Rightarrow> (case eval env r e of Inl err \<Rightarrow> Inl err | Inr x \<Rightarrow> Inr (or_null x)))"
| "acc_val env (APush e) rows =
     (case map_err (\<lambda>r. eval env r e) rows of
        Inl err \<Rightarrow> Inl err
      | Inr xs \<Rightarrow> Inr (VArr (concat (map (\<lambda>x. case x of None \<Rightarrow> [] | Some v \<Rightarrow> [v]) xs))))"
| "acc_val env (ASum e) rows =
     (case map_err (\<lambda>r. eval env r e) rows of
        Inl err \<Rightarrow> Inl err
      | Inr xs \<Rightarrow> Inr (VNum (sum_list (map num_of xs))))"

definition acc_field :: "env \<Rightarrow> doc list \<Rightarrow> string \<times> acc \<Rightarrow> error + (string \<times> val)" where
  "acc_field env rows fa =
     (case acc_val env (snd fa) rows of Inl err \<Rightarrow> Inl err | Inr v \<Rightarrow> Inr (fst fa, v))"

text \<open>
  Rows are grouped by the value of the key expression (a missing key is the key null).
  The store does not fix the order in which groups are emitted; here they are emitted in
  the order in which their keys first appear in the input.
\<close>

definition first_seen :: "'a list \<Rightarrow> 'a list" where
  "first_seen xs = rev (remdups (rev xs))"

definition group_rows ::
  "env \<Rightarrow> expr \<Rightarrow> (string \<times> acc) list \<Rightarrow> doc list \<Rightarrow> error + doc list" where
  "group_rows env key accs rows =
     (case map_err (\<lambda>r. eval env r key) rows of
        Inl err \<Rightarrow> Inl err
      | Inr ks \<Rightarrow>
          map_err (\<lambda>k.
            (case map_err (acc_field env (map snd (filter (\<lambda>kr. fst kr = k) (zip (map or_null ks) rows)))) accs of
               Inl err \<Rightarrow> Inl err
             | Inr fs \<Rightarrow> Inr ((''_id'', k) # fs)))
            (first_seen (map or_null ks)))"

subsection \<open>\<open>$sort\<close>\<close>

text \<open>
  All keys of this pipeline are ascending. A key is read through embedded documents; a key
  that is missing sorts as null, an array sorts by its smallest element, and the empty
  array sorts before null. The store does not fix the order of rows with equal keys;
  \<open>sort_rows\<close> is the sort that keeps them in their input order.
\<close>

fun sort_enc :: "val \<Rightarrow> tok list" where
  "sort_enc (VArr []) = [(4, 0, [])]"
| "sort_enc (VArr (x # xs)) = fold min (map enc xs) (enc x)"
| "sort_enc v = enc v"

definition sort_keys :: "string list list \<Rightarrow> doc \<Rightarrow> tok list list" where
  "sort_keys ps d = map (\<lambda>p. sort_enc (or_null (get_nested p d))) ps"

definition sort_rows :: "string list list \<Rightarrow> doc list \<Rightarrow> doc list" where
  "sort_rows ps rows = sort_key (sort_keys ps) rows"

subsection \<open>The pipeline interpreter\<close>

fun truthy_res :: "error + val option \<Rightarrow> error + bool" where
  "truthy_res (Inl e) = Inl e"
| "truthy_res (Inr x) = Inr (truthy x)"

fun filter_err :: "('a \<Rightarrow> error + bool) \<Rightarrow> 'a list \<Rightarrow> error + 'a list" where
  "filter_err f [] = Inr []"
| "filter_err f (x # xs) =
     (case f x of
        Inl e \<Rightarrow> Inl e
      | Inr b \<Rightarrow>
          (case filter_err f xs of Inl e \<Rightarrow> Inl e | Inr ys \<Rightarrow> Inr (if b then x # ys else ys)))"

definition bind_vars :: "env \<Rightarrow> doc \<Rightarrow> (string \<times> expr) list \<Rightarrow> error + env" where
  "bind_vars env d lets =
     map_err (\<lambda>xe. case eval env d (snd xe) of Inl err \<Rightarrow> Inl err | Inr v \<Rightarrow> Inr (fst xe, v)) lets"

fun sequence_err :: "(error + 'a) list \<Rightarrow> error + 'a list" where
  "sequence_err [] = Inr []"
| "sequence_err (x # xs) =
     (case x of
        Inl e \<Rightarrow> Inl e
      | Inr y \<Rightarrow> (case sequence_err xs of Inl e \<Rightarrow> Inl e | Inr ys \<Rightarrow> Inr (y # ys)))"

text \<open>
  \<open>$lookup\<close> with \<open>let\<close> and \<open>pipeline\<close> runs the inner pipeline over the foreign
  collection once per row, with the row's variables bound, and stores the resulting
  documents as an array under the \<open>as\<close> field. The row is kept whatever the array holds.
  A stage that fails makes the whole pipeline fail.
\<close>

fun run_pipeline :: "db \<Rightarrow> env \<Rightarrow> stage list \<Rightarrow> doc list \<Rightarrow> error + doc list" where
  "run_pipeline db env [] rows = Inr rows"
| "run_pipeline db env (Match q # ss) rows = run_pipeline db env ss (filter (matches q) rows)"
| "run_pipeline db env (MatchExpr e # ss) rows =
     (case filter_err (\<lambda>r. truthy_res (eval env r e)) rows of
        Inl err \<Rightarrow> Inl err
      | Inr rows' \<Rightarrow> run_pipeline db env ss rows')"
| "run_pipeline db env (Project ps # ss) rows =
     (case map_err (project_row env ps) rows of
        Inl err \<Rightarrow> Inl err
      | Inr rows' \<Rightarrow> run_pipeline db env ss rows')"
| "run_pipeline db env (Unwind p # ss) rows =
     run_pipeline db env ss (concat (map (unwind_row p) rows))"
| "run_pipeline db env (Lookup from lets sub as # ss) rows =
     (case sequence_err (map (\<lambda>r.
             (case bind_vars env r lets of
                Inl err \<Rightarrow> Inl err
              | Inr vars \<Rightarrow>
                  (case run_pipeline db vars sub (db from) of
                     Inl err \<Rightarrow> Inl err
                   | Inr found \<Rightarrow> Inr (AList.update as (VArr (map VDoc found)) r)))) rows) of
        Inl err \<Rightarrow> Inl err
      | Inr rows' \<Rightarrow> run_pipeline db env ss rows')"
| "run_pipeline db env (Group key accs # ss) rows =
     (case group_rows env key accs rows of
        Inl err \<Rightarrow> Inl err
      | Inr rows' \<Rightarrow> run_pipeline db env ss rows')"
| "run_pipeline db env (Sort ps # ss) rows = run_pipeline db env ss (sort_rows ps rows)"

definition run_stage :: "db \<Rightarrow> env \<Rightarrow> stage \<Rightarrow> doc list \<Rightarrow> error + doc list" where
  "run_stage db env s rows = run_pipeline db env [s] rows"

subsection \<open>What the store chooses\<close>

text \<open>
  \<open>run_pipeline\<close> is the run of a store that reads a collection in the order of its
  list, emits the groups of a \<open>$group\<close> in first-seen order and sorts stably. The store
  promises none of the three: it may read the documents of a collection in any order, emit
  groups in any order, and its \<open>$sort\<close> may put rows with equal keys in any order.
  \<open>run_on\<close> is the same interpreter with the three choices left to the store: \<open>scan\<close>
  is applied to a collection where the pipeline or a \<open>$lookup\<close> reads it, \<open>emit\<close> to
  the groups, \<open>sort_by\<close> is the sort.
\<close>

record store =
  scan :: "doc list \<Rightarrow> doc list"
  emit :: "doc list \<Rightarrow> doc list"
  sort_by :: "(doc \<Rightarrow> tok list list) \<Rightarrow> doc list \<Rightarrow> doc list"

fun run_on :: "store \<Rightarrow> db \<Rightarrow> env \<Rightarrow> stage list \<Rightarrow> doc list \<Rightarrow> error + doc list" where
  "run_on s db env [] rows = Inr rows"
| "run_on s db env (Match q # ss) rows = run_on s db env ss (filter (matches q) rows)"
| "run_on s db env (MatchExpr e # ss) rows =
     (case filter_err (\<lambda>r. truthy_res (eval env r e)) rows of
        Inl err \<Rightarrow> Inl err
      | Inr rows' \<Rightarrow> run_on s db env ss rows')"
| "run_on s db env (Project ps # ss) rows =
     (case map_err (project_row env ps) rows of
        Inl err \<Rightarrow> Inl err
      | Inr rows' \<Rightarrow> run_on s db env ss rows')"
| "run_on s db env (Unwind p # ss) rows =
     run_on s db env ss (concat (map (unwind_row p) rows))"
| "run_on s db env (Lookup from lets sub as # ss) rows =
     (case sequence_err (map (\<lambda>r.
             (case bind_vars env r lets of
                Inl err \<Rightarrow> Inl err
              | Inr vars \<Rightarrow>
                  (case run_on s db vars sub (scan s (db from)) of
                     Inl err \<Rightarrow> Inl err
                   | Inr found \<Rightarrow> Inr (AList.update as (VArr (map VDoc found)) r)))) rows) of
        Inl err \<Rightarrow> Inl err
      | Inr rows' \<Rightarrow> run_on s db env ss rows')"
| "run_on s db env (Group key accs # ss) rows =
     (case group_rows env key accs rows of
        Inl err \<Rightarrow> Inl err
      | Inr rows' \<Rightarrow> run_on s db env ss (emit s rows'))"
| "run_on s db env (Sort ps # ss) rows = run_on s db env ss (sort_by s (sort_keys ps) rows)"

section \<open>The pipeline of \<open>task_3_1\<close>\<close>

text \<open>
  The stages, in the order of the source (lines 45 to 244). The scope is the initiative
  \<open>58af4da0b310d92314627290\<close>, the categories are 105 and 147, the value set is
  \<open>{50}\<close> with the name \<open>ADP\<close>, the ceiling is 9000.
\<close>

definition initiative :: val where
  "initiative = VOid ''58af4da0b310d92314627290''"

text \<open>Lines 45 to 71: the first \<open>$match\<close>, on the stored opportunities.\<close>

definition match_opportunities :: "clause list" where
  "match_opportunities =
     [QAnd
       [[QFld [''initiativeId''] [QEq initiative],
         QFld [''contacts'', ''questions'', ''category_id''] [QIn [VNum 105, VNum 147]],
         QFld [''contacts''] [QElemMatch [QFld [''datePublished''] [QNe VNull]]]],
        [QFld [''contacts'', ''shortListedVendors'']
           [QElemMatch
             [QOr
               [[QFld [''name''] [QEq (VStr ''ADP'')],
                 QFld [''is_selected''] [QEq (VBool True)]],
                [QFld [''value''] [QIn [VNum 50], QLt 9000],
                 QFld [''is_selected''] [QEq (VBool True)]]]]]]]]"

text \<open>Lines 71 to 89: the first \<open>$project\<close>, the allow-list of fields.\<close>

definition project_allow_list :: "proj list" where
  "project_allow_list =
     [PIncl [''contacts'', ''id''],
      PIncl [''contacts'', ''questions'', ''category_id''],
      PIncl [''contacts'', ''questions'', ''answers'', ''primary_answer_value''],
      PIncl [''contacts'', ''questions'', ''answers'', ''primary_answer_text''],
      PIncl [''contacts'', ''questions'', ''answers'', ''loopInstances'', ''loop_instance''],
      PIncl [''contacts'', ''questions'', ''answers'', ''loopInstances'', ''is_selected''],
      PIncl [''contacts'', ''questions'', ''answers'', ''loopInstances'', ''loop_text''],
      PIncl [''contacts'', ''questions'', ''answers'', ''criteria_value''],
      PIncl [''contacts'', ''questions'', ''criteria_value''],
      PIncl [''contacts'', ''questions'', ''label''],
      PIncl [''contacts'', ''questions'', ''raw_text''],
      PIncl [''contacts'', ''questions'', ''id''],
      PIncl [''contacts'', ''win_vendor'', ''is_client''],
      PIncl [''contacts'', ''win_vendor'', ''name''],
      PIncl [''contacts'', ''win_vendor'', ''value'']]"

text \<open>Lines 93 to 124: the \<open>$match\<close> on the unwound questions.\<close>

definition match_questions :: "clause list" where
  "match_questions =
     [QAnd
       [[QFld [''contacts'', ''questions'', ''category_id''] [QIn [VNum 105, VNum 147]]],
        [QNor
          [[QFld [''contacts'', ''questions'', ''category_id''] [QEq (VNum 105)],
            QFld [''contacts'', ''questions'', ''answers'']
              [QElemMatch
                [QFld [''primary_answer_value''] [QGte 9000],
                 QFld [''loopInstances'']
                   [QElemMatch
                     [QFld [''is_selected''] [QEq (VBool True)],
                      QOr [[QFld [''loop_instance''] [QIn [VNum 50]]],
                           [QFld [''loop_text''] [QEq (VStr ''ADP'')]]]]]]]]]],
        [QFld [''contacts'', ''questions'', ''answers'', ''primary_answer_value'']
           [QLt 9000]]]]"

text \<open>Lines 128 to 147: the \<open>$match\<close> on the unwound loop instances.\<close>

definition branch_loop_instance :: "clause list" where
  "branch_loop_instance =
     [QFld [''contacts'', ''questions'', ''answers'', ''loopInstances'', ''loop_instance'']
        [QIn [VNum 50]]]"

definition branch_loop_text :: "clause list" where
  "branch_loop_text =
     [QFld [''contacts'', ''questions'', ''answers'', ''loopInstances'', ''loop_text'']
        [QEq (VStr ''ADP'')]]"

definition branch_client_winner :: "clause list" where
  "branch_client_winner =
     [QFld [''clientWinner''] [QEq (VBool False)],
      QFld [''contacts'', ''questions'', ''category_id''] [QEq (VNum 147)],
      QOr [[QFld [''contacts'', ''win_vendor'', ''value''] [QIn [VNum 50]]],
           [QFld [''contacts'', ''win_vendor'', ''name''] [QEq (VStr ''ADP'')]]]]"

definition match_instances :: "clause list" where
  "match_instances = [QOr [branch_loop_instance, branch_loop_text, branch_client_winner]]"

text \<open>Lines 147 to 188: the second \<open>$project\<close>, with its computed fields.\<close>

definition competitor_winner :: expr where
  "competitor_winner =
     EEq
       (ECmp
         (EAnd
           [EEq (EPath [''clientWinner'']) (ELit (VBool False)),
            EOr
              [EEq (EPath [''contacts'', ''questions'', ''answers'', ''loopInstances'',
                           ''loop_instance''])
                   (EPath [''contacts'', ''win_vendor'', ''value'']),
               EEq (EPath [''contacts'', ''questions'', ''category_id'']) (ELit (VNum 147))]])
         (ELit (VBool True)))
       (ELit (VNum 0))"

definition project_computed :: "proj list" where
  "project_computed =
     [PIncl [''contacts'', ''id''],
      PComp ''criteria_value''
        (EIfNull (EPath [''contacts'', ''questions'', ''criteria_value''])
                 (EPath [''contacts'', ''questions'', ''answers'', ''criteria_value''])),
      PIncl [''contacts'', ''questions'', ''id''],
      PIncl [''contacts'', ''questions'', ''answers''],
      PIncl [''contacts'', ''questions'', ''category_id''],
      PComp ''clientWinner'' (EPath [''contacts'', ''win_vendor'', ''is_client'']),
      PComp ''competitorWinner'' competitor_winner]"

text \<open>Lines 188 to 211: the \<open>$lookup\<close> into \<open>clientCriteria\<close>.\<close>

definition match_scope :: "clause list" where
  "match_scope = [QFld [''versions'', ''initiativeId''] [QEq initiative]]"

definition project_criteria :: "proj list" where
  "project_criteria =
     [PIncl [''value''], PIncl [''label''], PIncl [''definition''],
      PIncl [''versions'', ''definition'']]"

definition lookup_pipeline :: "stage list" where
  "lookup_pipeline =
     [Match match_scope,
      Project project_criteria,
      MatchExpr (EEq (EPath [''value'']) (EVar ''v1''))]"

definition lookup_criteria :: stage where
  "lookup_criteria =
     Lookup ''clientCriteria'' [(''v1'', EPath [''criteria_value''])] lookup_pipeline
       ''criteria''"

text \<open>Lines 211 to 236: the \<open>$group\<close>.\<close>

definition answer_value_path :: "string list" where
  "answer_value_path = [''contacts'', ''questions'', ''answers'', ''primary_answer_value'']"

definition definition_expr :: expr where
  "definition_expr =
     EIfNull
       (EArrayElemAt (EArrayElemAt (EPath [''criteria'', ''versions'', ''definition'']) 0) 0)
       (EArrayElemAt (EPath [''criteria'', ''definition'']) 0)"

definition pushed_answer :: expr where
  "pushed_answer =
     EObj
       [(''c'', EPath [''contacts'', ''id'']),
        (''question_category'', EPath [''contacts'', ''questions'', ''category_id'']),
        (''question_id'', EPath [''contacts'', ''questions'', ''id'']),
        (''ins'', EPath [''contacts'', ''questions'', ''answers'', ''loopInstances'',
                         ''loop_instance'']),
        (''answer_value'', EPath answer_value_path),
        (''selected'', EPath [''contacts'', ''questions'', ''answers'', ''loopInstances'',
                              ''is_selected'']),
        (''value'', EPath [''criteria_value'']),
        (''text'', EArrayElemAt (EPath [''criteria'', ''label'']) 0),
        (''definition'', definition_expr)]"

definition group_answers :: stage where
  "group_answers =
     Group (EPath answer_value_path)
       [(''answer_value'', AFirst (EPath answer_value_path)),
        (''answer_text'',
           AFirst (EPath [''contacts'', ''questions'', ''answers'', ''primary_answer_text''])),
        (''answers'', APush pushed_answer),
        (''count'', ASum (ELit (VNum 1)))]"

text \<open>Lines 238 to 243: the final \<open>$sort\<close>.\<close>

definition result_keys :: "string list list" where
  "result_keys =
     [[''answer_text''], [''answers'', ''question_id''], [''answers'', ''answer_value'']]"

definition sort_result :: stage where
  "sort_result = Sort result_keys"

text \<open>
  The stages up to the second \<open>$match\<close> (questions unwound and filtered), up to the
  third (loop instances unwound and filtered), and the whole pipeline.
\<close>

definition stages_to_questions :: "stage list" where
  "stages_to_questions =
     [Match match_opportunities,
      Project project_allow_list,
      Unwind [''contacts''],
      Unwind [''contacts'', ''questions''],
      Match match_questions]"

definition stages_to_instances :: "stage list" where
  "stages_to_instances =
     stages_to_questions @
     [Unwind [''contacts'', ''questions'', ''answers''],
      Unwind [''contacts'', ''questions'', ''answers'', ''loopInstances'']]"

definition stages_after_lookup :: "stage list" where
  "stages_after_lookup = [group_answers, Unwind [''answers''], sort_result]"

definition pipeline :: "stage list" where
  "pipeline =
     stages_to_instances @
     [Match match_instances, Project project_computed, lookup_criteria] @
     stages_after_lookup"

definition task_3_1 :: "db \<Rightarrow> error + doc list" where
  "task_3_1 db = run_pipeline db [] pipeline (db ''opportunities'')"

text \<open>The same call answered by a store with its own choices.\<close>

definition task_3_1_on :: "store \<Rightarrow> db \<Rightarrow> error + doc list" where
  "task_3_1_on s db = run_on s db [] pipeline (scan s (db ''opportunities''))"

section \<open>Notions the properties are stated with\<close>

text \<open>The key a row is sorted by at one path, and the order of two rows of the result.\<close>

definition sort_key_of :: "string list \<Rightarrow> doc \<Rightarrow> tok list" where
  "sort_key_of p d = sort_enc (or_null (get_nested p d))"

definition row_le :: "doc \<Rightarrow> doc \<Rightarrow> bool" where
  "row_le a b =
     (sort_key_of [''answer_text''] a < sort_key_of [''answer_text''] b \<or>
      sort_key_of [''answer_text''] a = sort_key_of [''answer_text''] b \<and>
      (sort_key_of [''answers'', ''question_id''] a
         < sort_key_of [''answers'', ''question_id''] b \<or>
       sort_key_of [''answers'', ''question_id''] a
         = sort_key_of [''answers'', ''question_id''] b \<and>
       sort_key_of [''answers'', ''answer_value''] a
         \<le> sort_key_of [''answers'', ''answer_value''] b))"

text \<open>
  The criteria of a key: the collection \<open>clientCriteria\<close> restricted to the documents
  with a version of the initiative, these reduced to the fields the lookup keeps, and of
  these the documents whose \<open>value\<close> equals the key. A row with its criteria attached.
\<close>

definition criteria_for :: "db \<Rightarrow> val option \<Rightarrow> doc list" where
  "criteria_for db key =
     filter (\<lambda>c. map_of c ''value'' = key)
       (map (incl_doc ([''_id''] # incl_paths project_criteria))
          (filter (matches match_scope) (db ''clientCriteria'')))"

definition attach_criteria :: "db \<Rightarrow> doc \<Rightarrow> doc" where
  "attach_criteria db r =
     AList.update ''criteria''
       (VArr (map VDoc (criteria_for db (map_of r ''criteria_value'')))) r"

text \<open>
  The answers of an unwound question, the value of an answer, and what the operator
  \<open>$lt\<close> accepts: a number below the ceiling, or an array that holds one.
\<close>

definition answers_path :: "string list" where
  "answers_path = [''contacts'', ''questions'', ''answers'']"

fun value_of_answer :: "val \<Rightarrow> val option" where
  "value_of_answer (VDoc a) = map_of a ''primary_answer_value''"
| "value_of_answer v = None"

definition below_ceiling :: "int \<Rightarrow> val option \<Rightarrow> bool" where
  "below_ceiling c v = list_ex (is_lt c) (leaf v)"

text \<open>
  The answers a question row is unwound into: the elements of its array of answers, or the
  value itself when it is not an array. The path of the loop instances.
\<close>

definition answers_of :: "doc \<Rightarrow> val list" where
  "answers_of q =
     (case get_nested answers_path q of
        None \<Rightarrow> []
      | Some VNull \<Rightarrow> []
      | Some (VArr as) \<Rightarrow> as
      | Some v \<Rightarrow> [v])"

definition instances_path :: "string list" where
  "instances_path = [''contacts'', ''questions'', ''answers'', ''loopInstances'']"

text \<open>
  The stages before the \<open>$lookup\<close>, and the stages before the \<open>$group\<close>. A list of
  stages is free of the store's choices of order when it has no \<open>$group\<close> and no
  \<open>$sort\<close>, at any depth.
\<close>

definition stages_before_lookup :: "stage list" where
  "stages_before_lookup =
     stages_to_instances @ [Match match_instances, Project project_computed]"

definition stages_to_lookup :: "stage list" where
  "stages_to_lookup = stages_before_lookup @ [lookup_criteria]"

fun store_free :: "stage list \<Rightarrow> bool" where
  "store_free [] = True"
| "store_free (Group key accs # ss) = False"
| "store_free (Sort ps # ss) = False"
| "store_free (Lookup from lets sub as # ss) = (store_free sub \<and> store_free ss)"
| "store_free (st # ss) = store_free ss"

text \<open>
  What a store promises of its choices: it reads the documents of a collection, each
  once, in some order; it emits the groups it is given, in some order; its sort returns
  the rows it is given, rearranged, in ascending order of the key. Three stores that keep
  the promise: the store of \<open>run_pipeline\<close>; a store that sorts as well but puts ties in
  the reverse of their input order; a store that reads every collection backwards.
\<close>

definition store_ok :: "store \<Rightarrow> bool" where
  "store_ok s =
     ((\<forall>xs. mset (scan s xs) = mset xs) \<and>
      (\<forall>gs. mset (emit s gs) = mset gs) \<and>
      (\<forall>f xs. sorted (map f (sort_by s f xs)) \<and> mset (sort_by s f xs) = mset xs))"

definition stable_store :: store where
  "stable_store =
     \<lparr>scan = (\<lambda>xs. xs), emit = (\<lambda>gs. gs), sort_by = (\<lambda>f xs. sort_key f xs)\<rparr>"

definition reversing_store :: store where
  "reversing_store =
     \<lparr>scan = (\<lambda>xs. xs), emit = (\<lambda>gs. gs), sort_by = (\<lambda>f xs. sort_key f (rev xs))\<rparr>"

definition backward_store :: store where
  "backward_store =
     \<lparr>scan = rev, emit = (\<lambda>gs. gs), sort_by = (\<lambda>f xs. sort_key f xs)\<rparr>"

text \<open>
  The lookup in the words of its description. A criteria document is in scope when one of
  its versions (the elements of \<open>versions\<close>, or \<open>versions\<close> itself when it is an
  embedded document) has the initiative as \<open>initiativeId\<close>, or an array holding it.
  The criteria of a key, in a collection as it is read, are the documents in scope,
  reduced to what the lookup keeps, whose \<open>value\<close> equals the key (a document without a
  \<open>value\<close> matches a key that is missing). The matches of a row are the criteria of its
  \<open>criteria_value\<close> in \<open>clientCriteria\<close> as the store reads it.
\<close>

definition scope_id :: val where
  "scope_id = VOid ''58af4da0b310d92314627290''"

fun holds_scope :: "val option \<Rightarrow> bool" where
  "holds_scope None = False"
| "holds_scope (Some (VArr ys)) = (scope_id \<in> set ys)"
| "holds_scope (Some v) = (v = scope_id)"

fun version_in_scope :: "val \<Rightarrow> bool" where
  "version_in_scope (VDoc f) = holds_scope (map_of f ''initiativeId'')"
| "version_in_scope v = False"

definition versions_of :: "doc \<Rightarrow> val list" where
  "versions_of c =
     (case map_of c ''versions'' of
        None \<Rightarrow> []
      | Some (VArr vs) \<Rightarrow> vs
      | Some v \<Rightarrow> [v])"

definition in_scope :: "doc \<Rightarrow> bool" where
  "in_scope c = list_ex version_in_scope (versions_of c)"

definition kept :: "doc \<Rightarrow> doc" where
  "kept c =
     incl_doc [[''_id''], [''value''], [''label''], [''definition''],
               [''versions'', ''definition'']] c"

definition criteria_of :: "doc list \<Rightarrow> val option \<Rightarrow> doc list" where
  "criteria_of coll key =
     filter (\<lambda>c. map_of c ''value'' = key) (map kept (filter in_scope coll))"

definition matches_of :: "store \<Rightarrow> db \<Rightarrow> doc \<Rightarrow> doc list" where
  "matches_of s db r =
     criteria_of (scan s (db ''clientCriteria'')) (map_of r ''criteria_value'')"

text \<open>
  The reduction of several matches. The nested definition of a match is the
  \<open>definition\<close> of its embedded \<open>versions\<close> document, or the array of the definitions
  its version documents have; a match without one is passed over. The first nested
  definition decides: its first element when it is an array whose first element is not
  null; the top-level \<open>definition\<close> of the first match that has one when there is no
  nested definition, or it is null, an empty array, or an array that begins with null; and
  a failure of the query when it is anything else. The text is the \<open>label\<close> of the
  first match that has one.
\<close>

fun first_present :: "('a \<Rightarrow> 'b option) \<Rightarrow> 'a list \<Rightarrow> 'b option" where
  "first_present f [] = None"
| "first_present f (x # xs) = (case f x of None \<Rightarrow> first_present f xs | Some y \<Rightarrow> Some y)"

fun definitions_in :: "val list \<Rightarrow> val list" where
  "definitions_in [] = []"
| "definitions_in (VDoc f # vs) =
     (case map_of f ''definition'' of
        None \<Rightarrow> definitions_in vs
      | Some x \<Rightarrow> x # definitions_in vs)"
| "definitions_in (v # vs) = definitions_in vs"

definition nested_definition :: "doc \<Rightarrow> val option" where
  "nested_definition c =
     (case map_of c ''versions'' of
        Some (VDoc f) \<Rightarrow> map_of f ''definition''
      | Some (VArr vs) \<Rightarrow> Some (VArr (definitions_in vs))
      | _ \<Rightarrow> None)"

definition top_definition :: "doc list \<Rightarrow> val option" where
  "top_definition cs = first_present (\<lambda>c. map_of c ''definition'') cs"

definition first_label :: "doc list \<Rightarrow> val option" where
  "first_label cs = first_present (\<lambda>c. map_of c ''label'') cs"

definition reduce_definition :: "doc list \<Rightarrow> error + val option" where
  "reduce_definition cs =
     (case first_present nested_definition cs of
        None \<Rightarrow> Inr (top_definition cs)
      | Some VNull \<Rightarrow> Inr (top_definition cs)
      | Some (VArr []) \<Rightarrow> Inr (top_definition cs)
      | Some (VArr (x # xs)) \<Rightarrow> Inr (if x = VNull then top_definition cs else Some x)
      | Some v \<Rightarrow> Inl ArrayElemAtNotArray)"

text \<open>The pipeline without its first \<open>$project\<close>, every other stage unchanged.\<close>

definition pipeline_unpruned :: "stage list" where
  "pipeline_unpruned = remove1 (Project project_allow_list) pipeline"

section \<open>Example data\<close>

text \<open>
  One opportunity of the initiative with one published contact, ADP short-listed and
  selected, and one question of category 147 with two answers, 5 and 10000, each with a
  loop instance 50.
\<close>

definition instance_50 :: val where
  "instance_50 = VDoc [(''loop_instance'', VNum 50), (''is_selected'', VBool True)]"

definition answer_of :: "int \<Rightarrow> string \<Rightarrow> val \<Rightarrow> val" where
  "answer_of n txt inst =
     VDoc [(''primary_answer_value'', VNum n), (''primary_answer_text'', VStr txt),
           (''loopInstances'', VArr [inst])]"

definition question_of :: "int \<Rightarrow> val list \<Rightarrow> val" where
  "question_of cat answers =
     VDoc [(''id'', VNum 7), (''category_id'', VNum cat), (''criteria_value'', VNum 11),
           (''answers'', VArr answers)]"

definition contact_of :: "val list \<Rightarrow> val" where
  "contact_of questions =
     VDoc [(''id'', VNum 3), (''datePublished'', VStr ''2017-03-01''),
           (''shortListedVendors'',
              VArr [VDoc [(''name'', VStr ''ADP''), (''is_selected'', VBool True)]]),
           (''win_vendor'', VDoc [(''name'', VStr ''ADP''), (''is_client'', VBool False)]),
           (''questions'', VArr questions)]"

definition opportunity_of :: "val list \<Rightarrow> doc" where
  "opportunity_of questions =
     [(''_id'', VNum 1), (''initiativeId'', initiative),
      (''contacts'', VArr [contact_of questions])]"

definition db_of :: "doc list \<Rightarrow> doc list \<Rightarrow> db" where
  "db_of opps crits = (\<lambda>name. []) (''opportunities'' := opps, ''clientCriteria'' := crits)"

definition db_over :: db where
  "db_over =
     db_of [opportunity_of
              [question_of 147 [answer_of 5 ''five'' instance_50,
                                answer_of 10000 ''huge'' instance_50]]] []"

definition group_row :: "int \<Rightarrow> string \<Rightarrow> (string \<times> val) list \<Rightarrow> doc" where
  "group_row n txt found =
     [(''_id'', VNum n), (''answer_value'', VNum n), (''answer_text'', VStr txt),
      (''answers'',
         VDoc ([(''c'', VNum 3), (''question_category'', VNum 147), (''question_id'', VNum 7),
                (''ins'', VNum 50), (''answer_value'', VNum n), (''selected'', VBool True),
                (''value'', VNum 11)] @ found)),
      (''count'', VNum 1)]"

definition out_over :: "doc list" where
  "out_over = [group_row 5 ''five'' [], group_row 10000 ''huge'' []]"

text \<open>The rows of that database after the loop instances are unwound.\<close>

definition instance_row :: "int \<Rightarrow> string \<Rightarrow> doc" where
  "instance_row n txt =
     [(''_id'', VNum 1),
      (''contacts'',
         VDoc [(''id'', VNum 3),
               (''win_vendor'', VDoc [(''name'', VStr ''ADP''), (''is_client'', VBool False)]),
               (''questions'',
                  VDoc [(''id'', VNum 7), (''category_id'', VNum 147),
                        (''criteria_value'', VNum 11),
                        (''answers'',
                           VDoc [(''primary_answer_value'', VNum n),
                                 (''primary_answer_text'', VStr txt),
                                 (''loopInstances'', instance_50)])])])]"

definition rows_over :: "doc list" where
  "rows_over = [instance_row 5 ''five'', instance_row 10000 ''huge'']"

text \<open>The same rows after the second \<open>$project\<close>.\<close>

definition projected_row :: "int \<Rightarrow> string \<Rightarrow> doc" where
  "projected_row n txt =
     [(''_id'', VNum 1),
      (''contacts'',
         VDoc [(''id'', VNum 3),
               (''questions'',
                  VDoc [(''id'', VNum 7), (''category_id'', VNum 147),
                        (''answers'',
                           VDoc [(''primary_answer_value'', VNum n),
                                 (''primary_answer_text'', VStr txt),
                                 (''loopInstances'', instance_50)])])]),
      (''criteria_value'', VNum 11),
      (''clientWinner'', VBool False),
      (''competitorWinner'', VBool False)]"

text \<open>
  Three criteria with the value 11: one of the initiative whose version has a definition,
  one of the initiative whose version has none, one of another initiative; the first two
  as the lookup keeps them; and a database with the three criteria and one answer, 5.
\<close>

definition crit_nested :: doc where
  "crit_nested =
     [(''_id'', VNum 21), (''value'', VNum 11), (''label'', VStr ''L1''),
      (''definition'', VStr ''D1''),
      (''versions'',
         VArr [VDoc [(''initiativeId'', initiative), (''definition'', VStr ''V1'')]])]"

definition crit_plain :: doc where
  "crit_plain =
     [(''_id'', VNum 22), (''value'', VNum 11), (''label'', VStr ''L2''),
      (''definition'', VStr ''D2''),
      (''versions'', VArr [VDoc [(''initiativeId'', initiative)]])]"

definition crit_foreign :: doc where
  "crit_foreign =
     [(''_id'', VNum 23), (''value'', VNum 11), (''label'', VStr ''L3''),
      (''definition'', VStr ''D3''),
      (''versions'',
         VArr [VDoc [(''initiativeId'', VOid ''000000000000000000000000''),
                     (''definition'', VStr ''V3'')]])]"

definition kept_nested :: doc where
  "kept_nested =
     [(''_id'', VNum 21), (''value'', VNum 11), (''label'', VStr ''L1''),
      (''definition'', VStr ''D1''),
      (''versions'', VArr [VDoc [(''definition'', VStr ''V1'')]])]"

definition kept_plain :: doc where
  "kept_plain =
     [(''_id'', VNum 22), (''value'', VNum 11), (''label'', VStr ''L2''),
      (''definition'', VStr ''D2''),
      (''versions'', VArr [VDoc []])]"

definition db_criteria :: db where
  "db_criteria =
     db_of [opportunity_of [question_of 147 [answer_of 5 ''five'' instance_50]]]
       [crit_foreign, crit_nested, crit_plain]"

text \<open>
  A question row as the second \<open>$match\<close> receives it, with the given answers; a
  database whose question has the answers 1 and 2.
\<close>

definition question_row :: "val list \<Rightarrow> doc" where
  "question_row answers =
     [(''_id'', VNum 1),
      (''contacts'',
         VDoc [(''id'', VNum 3),
               (''win_vendor'', VDoc [(''name'', VStr ''ADP''), (''is_client'', VBool False)]),
               (''questions'',
                  VDoc [(''id'', VNum 7), (''category_id'', VNum 147),
                        (''criteria_value'', VNum 11),
                        (''answers'', VArr answers)])])]"

definition db_pair :: db where
  "db_pair =
     db_of [opportunity_of
              [question_of 147 [answer_of 1 ''one'' instance_50,
                                answer_of 2 ''two'' instance_50]]] []"

text \<open>
  An opportunity that stores a top-level \<open>clientWinner\<close> false, won by ADP, whose only
  loop instance is neither 50 nor ADP; and the row the pipeline without the allow-list
  returns for it.
\<close>

definition instance_other :: val where
  "instance_other =
     VDoc [(''loop_instance'', VNum 7), (''loop_text'', VStr ''Other''),
           (''is_selected'', VBool True)]"

definition db_winner :: db where
  "db_winner =
     db_of [(''clientWinner'', VBool False) #
              opportunity_of [question_of 147 [answer_of 5 ''five'' instance_other]]] []"

definition winner_row :: doc where
  "winner_row =
     [(''_id'', VNum 5), (''answer_value'', VNum 5), (''answer_text'', VStr ''five''),
      (''answers'',
         VDoc [(''c'', VNum 3), (''question_category'', VNum 147), (''question_id'', VNum 7),
               (''ins'', VNum 7), (''answer_value'', VNum 5), (''selected'', VBool True),
               (''value'', VNum 11)]),
      (''count'', VNum 1)]"

text \<open>
  A criteria document of the initiative whose \<open>versions\<close> is an embedded document with
  a string definition, as the lookup keeps it, and the database \<open>db_over\<close> with two
  criteria of the value 11: that one, then one whose version has no definition.
\<close>

definition crit_embedded :: doc where
  "crit_embedded =
     [(''_id'', VNum 24), (''value'', VNum 11), (''label'', VStr ''L4''),
      (''definition'', VStr ''D4''),
      (''versions'', VDoc [(''initiativeId'', initiative), (''definition'', VStr ''V4'')])]"

definition kept_embedded :: doc where
  "kept_embedded =
     [(''_id'', VNum 24), (''value'', VNum 11), (''label'', VStr ''L4''),
      (''definition'', VStr ''D4''),
      (''versions'', VDoc [(''definition'', VStr ''V4'')])]"

definition db_embedded :: db where
  "db_embedded =
     db_of [opportunity_of
              [question_of 147 [answer_of 5 ''five'' instance_50,
                                answer_of 10000 ''huge'' instance_50]]]
       [crit_embedded, crit_plain]"

text \<open>
  A database whose question has the answer 7 with two matching loop instances, then the
  answer 5 with one; a row of a result with the given answer, loop instance and count.
  A database of two opportunities that each have the answer 7, one with the text
  \<open>seven\<close>, the other with the text \<open>sept\<close>.
\<close>

definition instance_adp :: val where
  "instance_adp =
     VDoc [(''loop_instance'', VNum 8), (''loop_text'', VStr ''ADP''),
           (''is_selected'', VBool False)]"

definition db_ties :: db where
  "db_ties =
     db_of [opportunity_of
              [question_of 147
                 [VDoc [(''primary_answer_value'', VNum 7),
                        (''primary_answer_text'', VStr ''seven''),
                        (''loopInstances'', VArr [instance_50, instance_adp])],
                  answer_of 5 ''five'' instance_50]]] []"

definition tie_row :: "int \<Rightarrow> string \<Rightarrow> int \<Rightarrow> bool \<Rightarrow> int \<Rightarrow> doc" where
  "tie_row n txt ins sel cnt =
     [(''_id'', VNum n), (''answer_value'', VNum n), (''answer_text'', VStr txt),
      (''answers'',
         VDoc [(''c'', VNum 3), (''question_category'', VNum 147), (''question_id'', VNum 7),
               (''ins'', VNum ins), (''answer_value'', VNum n), (''selected'', VBool sel),
               (''value'', VNum 11)]),
      (''count'', VNum cnt)]"

definition db_texts :: db where
  "db_texts =
     db_of [opportunity_of [question_of 147 [answer_of 7 ''seven'' instance_50]],
            AList.update ''_id'' (VNum 2)
              (opportunity_of [question_of 147 [answer_of 7 ''sept'' instance_50]])] []"

section \<open>Lemmas\<close>

lemma run_pipeline_append:
  "run_pipeline db env (a @ b) rows =
     (case run_pipeline db env a rows of Inl e \<Rightarrow> Inl e | Inr r \<Rightarrow> run_pipeline db env b r)"
proof (induction a arbitrary: rows)
  case Nil
  show ?case by simp
next
  case (Cons s a)
  show ?case by (cases s) (simp_all add: Cons.IH split: sum.splits)
qed

lemma get_set_nested:
  "get_nested p d \<noteq> None \<Longrightarrow> get_nested p (set_nested p v d) = Some v"
proof (induction p v d rule: set_nested.induct)
  case (1 v d)
  then show ?case by simp
next
  case (2 k v d)
  show ?case by (simp add: update_conv')
next
  case (3 k k' ks v d)
  then show ?case by (auto simp: update_conv' split: option.splits val.splits)
qed

lemma lex3_le:
  fixes a :: "'a::linorder"
  shows "([a, b, c] \<le> [a', b', c']) =
    (a < a' \<or> a = a' \<and> (b < b' \<or> b = b' \<and> c \<le> c'))"
  by (auto simp: le_less)

lemma row_le_keys: "row_le a b = (sort_keys result_keys a \<le> sort_keys result_keys b)"
  unfolding row_le_def sort_keys_def result_keys_def sort_key_of_def list.map
  by (rule lex3_le [symmetric])

lemma pipeline_split: "pipeline = butlast pipeline @ [Sort result_keys]"
  by (simp add: pipeline_def stages_after_lookup_def sort_result_def
      stages_to_instances_def stages_to_questions_def)

lemma task_db_over: "task_3_1 db_over = Inr out_over"
  by code_simp

lemma rows_db_over:
  "run_pipeline db_over [] stages_to_instances (db_over ''opportunities'') = Inr rows_over"
  by code_simp

lemma projected_db_over:
  "run_pipeline db_over []
     (stages_to_instances @ [Match match_instances, Project project_computed])
     (db_over ''opportunities'')
   = Inr [projected_row 5 ''five'', projected_row 10000 ''huge'']"
  by code_simp

lemma map_err_Inr_D:
  "map_err f xs = Inr ys \<Longrightarrow> list_all2 (\<lambda>x y. f x = Inr y) xs ys"
  by (induction xs arbitrary: ys) (auto split: sum.splits)

lemma map_err_Inr_I:
  "list_all2 (\<lambda>x y. f x = Inr y) xs ys \<Longrightarrow> map_err f xs = Inr ys"
  by (induction rule: list_all2_induct) auto

lemma map_err_total: "map_err (\<lambda>x. Inr (f x)) xs = Inr (map f xs)"
  by (induction xs) simp_all

subsection \<open>Top-level fields through the first stages\<close>

lemma incl_doc_keys: "k \<in> fst ` set (incl_doc ps d) \<Longrightarrow> subpaths k ps \<noteq> []"
  by (auto simp: incl_doc_def split: if_splits option.splits)

lemma incl_doc_absent: "subpaths k ps = [] \<Longrightarrow> map_of (incl_doc ps d) k = None"
  using incl_doc_keys [of k ps d] by (auto simp: map_of_eq_None_iff)

lemma set_nested_other: "k \<noteq> hd p \<Longrightarrow> map_of (set_nested p v d) k = map_of d k"
  by (induction p v d rule: set_nested.induct)
     (auto simp: update_conv' split: option.splits val.splits)

lemma unwind_row_cases:
  assumes "r' \<in> set (unwind_row p r)"
  shows "r' = r \<or> (\<exists>x. r' = set_nested p x r)"
proof (cases "get_nested p r")
  case None
  with assms show ?thesis by (simp add: unwind_row_def)
next
  case (Some v)
  with assms show ?thesis by (cases v) (auto simp: unwind_row_def)
qed

lemma unwind_row_other:
  "r' \<in> set (unwind_row p r) \<Longrightarrow> k \<noteq> hd p \<Longrightarrow> map_of r' k = map_of r k"
  using unwind_row_cases [of r' p r] by (auto simp: set_nested_other)

lemma project_allow_list_rows:
  "map_err (project_row env project_allow_list) rows =
     Inr (map (incl_doc ([''_id''] # incl_paths project_allow_list)) rows)"
  by (simp add: project_row_def[abs_def] project_allow_list_def map_err_total)

lemma allow_list_no_client_winner:
  "subpaths ''clientWinner'' ([''_id''] # incl_paths project_allow_list) = []"
  by (simp add: subpaths_def project_allow_list_def)

lemma to_instances_rows:
  "\<exists>rows'. run_pipeline db env stages_to_instances rows = Inr rows' \<and>
      (\<forall>r\<in>set rows'. map_of r ''clientWinner'' = None)"
proof -
  have "\<And>r. r \<in> set (map (incl_doc ([''_id''] # incl_paths project_allow_list))
                        (filter (matches match_opportunities) rows))
          \<Longrightarrow> map_of r ''clientWinner'' = None"
    using allow_list_no_client_winner by (auto simp: incl_doc_absent)
  then show ?thesis
    unfolding stages_to_instances_def stages_to_questions_def
    by (auto simp: project_allow_list_rows
        dest!: unwind_row_other[where k = "''clientWinner''"])
qed

lemma client_winner_absent_no_match:
  "map_of r ''clientWinner'' = None \<Longrightarrow> \<not> matches branch_client_winner r"
  by (simp add: matches_def branch_client_winner_def eq_match_def leaves_def)

lemma match_instances_two_branches:
  "map_of r ''clientWinner'' = None \<Longrightarrow>
   matches match_instances r = matches [QOr [branch_loop_instance, branch_loop_text]] r"
  using client_winner_absent_no_match [of r]
  by (simp add: matches_def match_instances_def)

lemma cmp_false_true: "cmp_val (Some (VBool False)) (Some (VBool True)) = - 1"
  by (simp add: cmp_val_def)

lemma competitor_winner_eval:
  "map_of d ''clientWinner'' = None \<Longrightarrow>
   eval env d competitor_winner = Inr (Some (VBool False))"
  by (simp add: competitor_winner_def cmp_false_true)

lemma project_computed_row:
  assumes "map_of d ''clientWinner'' = None"
  shows "\<exists>r. project_row env project_computed d = Inr r \<and>
             map_of r ''competitorWinner'' = Some (VBool False)"
  using competitor_winner_eval [OF assms, of env]
  by (simp add: project_row_def project_computed_def update_conv' split: option.splits)

subsection \<open>The lookup and the pushed answer\<close>

lemma filter_err_total: "filter_err (\<lambda>x. Inr (P x)) xs = Inr (filter P xs)"
  by (induction xs) simp_all

lemma sequence_err_total: "sequence_err (map (\<lambda>x. Inr (f x)) xs) = Inr (map f xs)"
  by (induction xs) simp_all

lemma project_criteria_rows:
  "map_err (project_row env project_criteria) rows =
     Inr (map (incl_doc ([''_id''] # incl_paths project_criteria)) rows)"
  by (simp add: project_row_def[abs_def] project_criteria_def map_err_total)

lemma lookup_pipeline_rows:
  "run_pipeline db [(''v1'', key)] lookup_pipeline (db ''clientCriteria'')
     = Inr (criteria_for db key)"
  by (simp add: lookup_pipeline_def project_criteria_rows filter_err_total criteria_for_def)

lemma lookup_criteria_rows:
  "run_pipeline db [] [lookup_criteria] rows = Inr (map (attach_criteria db) rows)"
  by (simp add: lookup_criteria_def bind_vars_def lookup_pipeline_rows sequence_err_total
      attach_criteria_def[abs_def])

lemma eval_obj_keys:
  "eval_obj env d fs = Inr a \<Longrightarrow> k \<in> fst ` set a \<Longrightarrow>
     \<exists>e x. (k, e) \<in> set fs \<and> eval env d e = Inr (Some x)"
proof (induction fs arbitrary: a)
  case Nil
  then show ?case by simp
next
  case (Cons f fs)
  obtain k' e' where f: "f = (k', e')" by (cases f)
  from Cons.prems f obtain x a' where x: "eval env d e' = Inr x"
    and a': "eval_obj env d fs = Inr a'"
    and a: "a = (case x of None \<Rightarrow> a' | Some v \<Rightarrow> (k', v) # a')"
    by (auto split: sum.splits)
  show ?case
  proof (cases "k \<in> fst ` set a'")
    case True
    from Cons.IH [OF a' True] show ?thesis by auto
  next
    case False
    with Cons.prems(2) a obtain v where "x = Some v" "k = k'"
      by (cases x) auto
    with x f show ?thesis by auto
  qed
qed










subsection \<open>The filter on questions\<close>

lemma get_nested_answers:
  "get_nested answers_path d = Some v \<Longrightarrow>
   \<exists>dc dq. map_of d ''contacts'' = Some (VDoc dc) \<and>
     map_of dc ''questions'' = Some (VDoc dq) \<and> map_of dq ''answers'' = Some v"
  by (auto simp: answers_path_def split: option.splits val.splits)

lemma qvals_field: "qvals [k] (VDoc f) = [map_of f k]"
  by (simp split: option.splits)

lemma lt_answers:
  "list_ex (is_lt c)
     (leaves (concat (map (qvals [''primary_answer_value'']) (filter is_doc as))))
     = list_ex (\<lambda>a. below_ceiling c (value_of_answer a)) as"
proof (induction as)
  case Nil
  show ?case by (simp add: leaves_def)
next
  case (Cons a as)
  then show ?case
    by (cases a) (simp_all add: leaves_def below_ceiling_def qvals_field del: qvals.simps)
qed

lemma qvals_answer_values:
  assumes "get_nested answers_path d = Some (VArr as)"
  shows "qvals answer_value_path (VDoc d) =
     concat (map (qvals [''primary_answer_value'']) (filter is_doc as))"
proof -
  from get_nested_answers [OF assms] obtain dc dq
    where "map_of d ''contacts'' = Some (VDoc dc)" "map_of dc ''questions'' = Some (VDoc dq)"
      "map_of dq ''answers'' = Some (VArr as)" by blast
  then show ?thesis by (simp add: answer_value_path_def del: qvals.simps(2)) (simp)
qed

lemma match_questions_lt:
  "matches match_questions d \<Longrightarrow>
   list_ex (is_lt 9000) (leaves (qvals answer_value_path (VDoc d)))"
  by (simp add: matches_def match_questions_def answer_value_path_def del: qvals.simps)

lemma rows_db_pair:
  "run_pipeline db_pair [] (stages_to_instances @ [Match match_instances])
     (db_pair ''opportunities'')
     = Inr [instance_row 1 ''one'', instance_row 2 ''two'']"
  by code_simp

lemma pair_matches:
  "matches match_questions
     (question_row [answer_of 1 ''one'' instance_50, answer_of 2 ''two'' instance_50])"
  by code_simp

lemma none_below:
  "\<not> list_ex (\<lambda>a. below_ceiling 9000 (value_of_answer a))
       [answer_of 9000 ''nine'' instance_50, answer_of 10000 ''huge'' instance_50]"
  by code_simp

lemma task_db_winner: "task_3_1 db_winner = Inr []"
  by code_simp

lemma unpruned_db_winner:
  "run_pipeline db_winner [] pipeline_unpruned (db_winner ''opportunities'') = Inr [winner_row]"
  by code_simp

subsection \<open>From a group back to its question\<close>

lemma unwind_row_mem:
  assumes "r' \<in> set (unwind_row p d)"
  shows "(\<exists>xs x. get_nested p d = Some (VArr xs) \<and> x \<in> set xs \<and> r' = set_nested p x d) \<or>
         (\<exists>v. get_nested p d = Some v \<and> v \<noteq> VNull \<and> (\<forall>xs. v \<noteq> VArr xs) \<and> r' = d)"
proof (cases "get_nested p d")
  case None
  with assms show ?thesis by (simp add: unwind_row_def)
next
  case (Some v)
  with assms show ?thesis by (cases v) (auto simp: unwind_row_def)
qed

lemma get_nested_snoc:
  "p \<noteq> [] \<Longrightarrow> get_nested (p @ [k]) d =
     (case get_nested p d of Some (VDoc f) \<Rightarrow> map_of f k | _ \<Rightarrow> None)"
proof (induction p d rule: get_nested.induct)
  case (1 d)
  then show ?case by simp
next
  case (2 k' d)
  show ?case by (simp split: option.splits val.splits)
next
  case (3 k' k'' ks d)
  then show ?case by (simp split: option.splits val.splits)
qed

lemma set_nested_snoc:
  "p \<noteq> [] \<Longrightarrow> get_nested p d = Some (VDoc f) \<Longrightarrow>
   get_nested p (set_nested (p @ [k]) x d) = Some (VDoc (AList.update k x f))"
proof (induction p d rule: get_nested.induct)
  case (1 d)
  then show ?case by simp
next
  case (2 k' d)
  then show ?case by (simp add: update_conv')
next
  case (3 k' k'' ks d)
  then show ?case by (auto simp: update_conv' split: option.splits val.splits)
qed

lemma instances_snoc: "instances_path = answers_path @ [''loopInstances'']"
  by (simp add: instances_path_def answers_path_def)

lemma value_snoc: "answer_value_path = answers_path @ [''primary_answer_value'']"
  by (simp add: answer_value_path_def answers_path_def)

lemma answers_path_nonempty: "answers_path \<noteq> []"
  by (simp add: answers_path_def)

lemma instance_row_answer:
  assumes "r7 \<in> set (unwind_row instances_path r6)"
  shows "\<exists>f6 da. get_nested answers_path r6 = Some (VDoc f6) \<and>
           get_nested answers_path r7 = Some (VDoc da) \<and>
           map_of da ''primary_answer_value'' = map_of f6 ''primary_answer_value''"
proof -
  from unwind_row_mem [OF assms]
  obtain v where v: "get_nested instances_path r6 = Some v"
    and r7: "r7 = r6 \<or> (\<exists>x. r7 = set_nested instances_path x r6)"
    by auto
  from v obtain f6 where f6: "get_nested answers_path r6 = Some (VDoc f6)"
    by (auto simp: instances_snoc get_nested_snoc [OF answers_path_nonempty]
        split: option.splits val.splits)
  from r7 show ?thesis
  proof
    assume "r7 = r6"
    with f6 show ?thesis by simp
  next
    assume "\<exists>x. r7 = set_nested instances_path x r6"
    then obtain x where "r7 = set_nested instances_path x r6" ..
    with set_nested_snoc [OF answers_path_nonempty f6, of "''loopInstances''" x] f6
    show ?thesis by (simp add: instances_snoc update_conv')
  qed
qed

lemma answer_row_answer:
  assumes "r6 \<in> set (unwind_row answers_path q)"
    and "get_nested answers_path r6 = Some (VDoc f6)"
  shows "VDoc f6 \<in> set (answers_of q)"
proof -
  from unwind_row_mem [OF assms(1)]
  show ?thesis
  proof (elim disjE exE conjE)
    fix xs x
    assume "get_nested answers_path q = Some (VArr xs)" "x \<in> set xs"
      "r6 = set_nested answers_path x q"
    with assms(2) get_set_nested [of answers_path q x]
    show ?thesis by (simp add: answers_of_def)
  next
    fix v
    assume "get_nested answers_path q = Some v" "v \<noteq> VNull" "\<forall>xs. v \<noteq> VArr xs" "r6 = q"
    with assms(2) show ?thesis by (simp add: answers_of_def)
  qed
qed

lemma kept_question_below:
  assumes "matches match_questions q" and "VDoc f \<in> set (answers_of q)"
  shows "list_ex (\<lambda>a. below_ceiling 9000 (value_of_answer a)) (answers_of q)"
proof (cases "get_nested answers_path q")
  case None
  with assms(2) show ?thesis by (simp add: answers_of_def)
next
  case (Some v)
  show ?thesis
  proof (cases "\<exists>xs. v = VArr xs")
    case True
    then obtain xs where xs: "v = VArr xs" ..
    with Some have "get_nested answers_path q = Some (VArr xs)" by simp
    from match_questions_lt [OF assms(1)] qvals_answer_values [OF this] lt_answers [of 9000 xs]
    show ?thesis using Some xs by (simp add: answers_of_def)
  next
    case False
    with assms(2) Some have v: "v = VDoc f"
      by (cases v) (auto simp: answers_of_def)
    from get_nested_answers [OF Some] obtain dc dq
      where "map_of q ''contacts'' = Some (VDoc dc)" "map_of dc ''questions'' = Some (VDoc dq)"
        "map_of dq ''answers'' = Some v" by blast
    with v have "qvals answer_value_path (VDoc q) = [map_of f ''primary_answer_value'']"
      by (simp add: answer_value_path_def split: option.splits)
    with match_questions_lt [OF assms(1)] Some v show ?thesis
      by (simp add: answers_of_def leaves_def below_ceiling_def)
  qed
qed


lemma incl_val_doc: "incl_val ps (VDoc d) = Some (VDoc (incl_doc ps d))"
  by (simp add: incl_doc_def)

lemma map_of_incl_doc:
  assumes "map_of d k = Some v"
    and "subpaths k ps \<noteq> []"
    and "(if [] \<in> set (subpaths k ps) then Some v else incl_val (subpaths k ps) v) = Some v'"
  shows "map_of (incl_doc ps d) k = Some v'"
  using assms(1)
proof (induction d)
  case Nil
  then show ?case by simp
next
  case (Cons f d)
  obtain k0 v0 where f: "f = (k0, v0)" by (cases f)
  have step: "incl_doc ps (f # d) =
      (if subpaths k0 ps = [] then []
         else if [] \<in> set (subpaths k0 ps) then [(k0, v0)]
         else (case incl_val (subpaths k0 ps) v0 of None \<Rightarrow> [] | Some v' \<Rightarrow> [(k0, v')]))
      @ incl_doc ps d"
    by (simp add: incl_doc_def f)
  show ?case
  proof (cases "k0 = k")
    case True
    with Cons.prems f have "v0 = v" by simp
    with True assms(2,3) show ?thesis
      by (auto simp: step split: if_splits)
  next
    case False
    with Cons.prems f have "map_of d k = Some v" by simp
    from Cons.IH [OF this] False show ?thesis
      by (auto simp: step split: option.splits)
  qed
qed

lemma add_computed_other:
  "add_computed env d ps out = Inr out' \<Longrightarrow> \<forall>e. PComp k e \<notin> set ps \<Longrightarrow>
   map_of out' k = map_of out k"
proof (induction env d ps out rule: add_computed.induct)
  case (1 env d out)
  then show ?case by simp
next
  case (2 env d p ps out)
  then show ?case by simp
next
  case (3 env d k' e ps out)
  then show ?case
    by (auto simp: update_conv' split: sum.splits option.splits)
qed

lemma project_computed_answer:
  assumes "project_row env project_computed r = Inr r'"
    and "get_nested answers_path r = Some (VDoc da)"
  shows "get_nested answers_path r' = Some (VDoc da)"
proof -
  from get_nested_answers [OF assms(2)] obtain dc dq
    where dc: "map_of r ''contacts'' = Some (VDoc dc)"
      and dq: "map_of dc ''questions'' = Some (VDoc dq)"
      and da: "map_of dq ''answers'' = Some (VDoc da)" by blast
  let ?p0 = "[''_id''] # incl_paths project_computed"
  let ?p1 = "subpaths ''contacts'' ?p0"
  let ?p2 = "subpaths ''questions'' ?p1"
  have p1: "?p1 = [[''id''], [''questions'', ''id''], [''questions'', ''answers''],
                   [''questions'', ''category_id'']]"
    by (simp add: subpaths_def project_computed_def)
  have p2: "?p2 = [[''id''], [''answers''], [''category_id'']]"
    by (simp add: p1) (simp add: subpaths_def)
  have p3: "subpaths ''answers'' ?p2 = [[]]"
    by (simp add: p2) (simp add: subpaths_def)
  have "map_of (incl_doc ?p2 dq) ''answers'' = Some (VDoc da)"
    by (rule map_of_incl_doc [OF da]) (simp_all add: p3)
  moreover have "map_of (incl_doc ?p1 dc) ''questions'' = Some (VDoc (incl_doc ?p2 dq))"
    by (rule map_of_incl_doc [OF dq]) (simp_all add: p2 incl_val_doc del: incl_val.simps)
  moreover have "map_of (incl_doc ?p0 r) ''contacts'' = Some (VDoc (incl_doc ?p1 dc))"
    by (rule map_of_incl_doc [OF dc]) (simp_all add: p1 incl_val_doc del: incl_val.simps)
  moreover have "map_of r' ''contacts'' = map_of (incl_doc ?p0 r) ''contacts''"
    using assms(1) unfolding project_row_def
    by (rule add_computed_other) (simp add: project_computed_def)
  ultimately show ?thesis by (simp add: answers_path_def)
qed

lemma attach_criteria_answer:
  "get_nested answers_path (attach_criteria db r) = get_nested answers_path r"
  by (simp add: attach_criteria_def answers_path_def update_conv')

lemma epath_answer_value:
  assumes "get_nested answers_path r = Some (VDoc da)"
  shows "epath answer_value_path r = map_of da ''primary_answer_value''"
proof -
  from get_nested_answers [OF assms] obtain dc dq
    where "map_of r ''contacts'' = Some (VDoc dc)" "map_of dc ''questions'' = Some (VDoc dq)"
      "map_of dq ''answers'' = Some (VDoc da)" by blast
  then show ?thesis by (simp add: answer_value_path_def)
qed


lemma group_members:
  "map snd (filter (\<lambda>kr. fst kr = k) (zip (map f rows) rows)) = filter (\<lambda>r. f r = k) rows"
  by (induction rows) simp_all

lemma list_all2_right:
  "list_all2 P xs ys \<Longrightarrow> y \<in> set ys \<Longrightarrow> \<exists>x\<in>set xs. P x y"
  by (induction rule: list_all2_induct) auto

lemma set_first_seen: "set (first_seen xs) = set xs"
  by (simp add: first_seen_def)

lemma group_answers_value:
  assumes "run_pipeline db env [group_answers] rows = Inr gs" and "g \<in> set gs"
  shows "\<exists>r\<in>set rows. map_of g ''answer_value'' = Some (or_null (epath answer_value_path r))"
proof -
  let ?f = "\<lambda>r. or_null (epath answer_value_path r)"
  let ?F = "\<lambda>k. (case map_err (acc_field env (filter (\<lambda>r. ?f r = k) rows))
                        (case group_answers of Group key accs \<Rightarrow> accs) of
                   Inl err \<Rightarrow> Inl err
                 | Inr fs \<Rightarrow> Inr ((''_id'', k) # fs))"
  have keys: "map_err (\<lambda>r. eval env r (EPath answer_value_path)) rows
                = Inr (map (epath answer_value_path) rows)"
    by (simp add: map_err_total)
  have "map or_null (map (epath answer_value_path) rows) = map ?f rows" by simp
  with assms(1) keys have "map_err ?F (first_seen (map ?f rows)) = Inr gs"
    by (simp add: group_answers_def group_rows_def group_members o_def split: sum.splits)
  from list_all2_right [OF map_err_Inr_D [OF this] assms(2)]
  obtain k where k: "k \<in> set (map ?f rows)" and g: "?F k = Inr g"
    by (auto simp: set_first_seen)
  from k obtain r rest where grp: "filter (\<lambda>r. ?f r = k) rows = r # rest"
    by (cases "filter (\<lambda>r. ?f r = k) rows") (auto simp: filter_empty_conv)
  then have "r \<in> set (filter (\<lambda>r. ?f r = k) rows)" by simp
  then have r: "r \<in> set rows" by simp
  from g have "map_of g ''answer_value'' = Some (?f r)"
    by (auto simp: group_answers_def grp acc_field_def split: sum.splits)
  with r show ?thesis by blast
qed

lemma to_questions_rows:
  "\<exists>qs. run_pipeline db env stages_to_questions rows = Inr qs \<and>
      (\<forall>q\<in>set qs. matches match_questions q)"
  by (simp add: stages_to_questions_def project_allow_list_rows)

lemma pipeline_after_questions:
  "pipeline = stages_to_questions @
     [Unwind answers_path, Unwind instances_path, Match match_instances,
      Project project_computed] @ [lookup_criteria] @ [group_answers] @
     [Unwind [''answers''], Sort result_keys]"
  by (simp add: pipeline_def stages_to_instances_def stages_after_lookup_def sort_result_def
      answers_path_def instances_path_def)

lemma questions_db_over:
  "run_pipeline db_over [] stages_to_questions (db_over ''opportunities'')
     = Inr [question_row [answer_of 5 ''five'' instance_50, answer_of 10000 ''huge'' instance_50]]"
  by code_simp

lemma answers_of_question_row: "answers_of (question_row xs) = xs"
  by (simp add: answers_of_def answers_path_def question_row_def)

subsection \<open>Fields of an object expression\<close>

lemma eval_obj_map_of:
  "eval_obj env d fs = Inr a \<Longrightarrow> distinct (map fst fs) \<Longrightarrow> (k, e) \<in> set fs \<Longrightarrow>
   eval env d e = Inr x \<Longrightarrow> map_of a k = x"
proof (induction fs arbitrary: a)
  case Nil
  then show ?case by simp
next
  case (Cons f fs)
  obtain k0 e0 where f: "f = (k0, e0)" by (cases f)
  from Cons.prems(1) f obtain x0 a' where x0: "eval env d e0 = Inr x0"
    and a': "eval_obj env d fs = Inr a'"
    and a: "a = (case x0 of None \<Rightarrow> a' | Some v \<Rightarrow> (k0, v) # a')"
    by (auto split: sum.splits)
  from Cons.prems(2) f have dist: "distinct (map fst fs)" and k0: "k0 \<notin> fst ` set fs"
    by simp_all
  show ?case
  proof (cases "k0 = k")
    case True
    with k0 Cons.prems(3) f have "e0 = e" by force
    with x0 Cons.prems(4) have xx: "x0 = x" by simp
    have "k \<notin> fst ` set a'"
    proof
      assume "k \<in> fst ` set a'"
      from eval_obj_keys [OF a' this] obtain e' where "(k, e') \<in> set fs" by blast
      with k0 True show False by force
    qed
    then have "map_of a' k = None" by (simp add: map_of_eq_None_iff)
    with a xx True show ?thesis by (cases x) simp_all
  next
    case False
    with Cons.prems(3) f have "(k, e) \<in> set fs" by simp
    from Cons.IH [OF a' dist this Cons.prems(4)] have "map_of a' k = x" .
    with a False show ?thesis by (cases x0) simp_all
  qed
qed

lemma map_err_mem:
  "map_err f xs = Inr ys \<Longrightarrow> y \<in> set ys \<Longrightarrow> \<exists>x\<in>set xs. f x = Inr y"
  using list_all2_right [OF map_err_Inr_D] by fast

subsection \<open>Runs on a store\<close>

lemma run_on_append:
  "run_on s db env (a @ b) rows =
     (case run_on s db env a rows of Inl e \<Rightarrow> Inl e | Inr r \<Rightarrow> run_on s db env b r)"
proof (induction a arbitrary: rows)
  case Nil
  show ?case by simp
next
  case (Cons st a)
  show ?case by (cases st) (simp_all add: Cons.IH split: sum.splits)
qed

lemma run_on_same_scan:
  assumes scans: "\<forall>c. scan s (db c) = scan s' (db c)"
  shows "store_free ss \<Longrightarrow> run_on s db env ss rows = run_on s' db env ss rows"
  using scans
proof (induction s db env ss rows rule: run_on.induct)
  case (6 s db env "from" lets sub as ss rows)
  let ?F = "\<lambda>r. case bind_vars env r lets of
                    Inl err \<Rightarrow> Inl err
                  | Inr vars \<Rightarrow>
                      (case run_on s db vars sub (scan s (db from)) of
                         Inl err \<Rightarrow> Inl err
                       | Inr found \<Rightarrow> Inr (AList.update as (VArr (map VDoc found)) r))"
  let ?G = "\<lambda>r. case bind_vars env r lets of
                    Inl err \<Rightarrow> Inl err
                  | Inr vars \<Rightarrow>
                      (case run_on s' db vars sub (scan s' (db from)) of
                         Inl err \<Rightarrow> Inl err
                       | Inr found \<Rightarrow> Inr (AList.update as (VArr (map VDoc found)) r))"
  from "6.prems" have sub: "store_free sub" and rest: "store_free ss"
    and same: "scan s (db from) = scan s' (db from)" by simp_all
  have eq: "map ?F rows = map ?G rows"
    by (rule map_cong)
       (auto simp: "6.IH"(1) [OF _ _ sub "6.prems"(2)] same [symmetric] split: sum.splits)
  show ?case
  proof (cases "sequence_err (map ?G rows)")
    case (Inl e)
    then show ?thesis unfolding run_on.simps eq by simp
  next
    case (Inr b)
    from Inr have "sequence_err (map ?F rows) = Inr b" by (simp only: eq)
    from "6.IH"(2) [OF this rest "6.prems"(2)] Inr show ?thesis
      unfolding run_on.simps eq by simp
  qed
qed (simp_all split: sum.splits)

lemma run_on_stable: "run_on stable_store db env ss rows = run_pipeline db env ss rows"
proof (induction db env ss rows rule: run_pipeline.induct)
  case (6 db env "from" lets sub as ss rows)
  let ?F = "\<lambda>r. case bind_vars env r lets of
                    Inl err \<Rightarrow> Inl err
                  | Inr vars \<Rightarrow>
                      (case run_on stable_store db vars sub (scan stable_store (db from)) of
                         Inl err \<Rightarrow> Inl err
                       | Inr found \<Rightarrow> Inr (AList.update as (VArr (map VDoc found)) r))"
  let ?G = "\<lambda>r. case bind_vars env r lets of
                    Inl err \<Rightarrow> Inl err
                  | Inr vars \<Rightarrow>
                      (case run_pipeline db vars sub (db from) of
                         Inl err \<Rightarrow> Inl err
                       | Inr found \<Rightarrow> Inr (AList.update as (VArr (map VDoc found)) r))"
  have id: "scan stable_store (db from) = db from" by (simp add: stable_store_def)
  have eq: "map ?F rows = map ?G rows"
    by (rule map_cong) (auto simp: "6.IH"(1) id split: sum.splits)
  show ?case
  proof (cases "sequence_err (map ?G rows)")
    case (Inl e)
    then show ?thesis unfolding run_on.simps run_pipeline.simps eq by simp
  next
    case (Inr b)
    from "6.IH"(2) [OF Inr] Inr show ?thesis
      unfolding run_on.simps run_pipeline.simps eq by simp
  qed
qed (simp_all add: stable_store_def sort_rows_def split: sum.splits)

lemma task_3_1_stable: "task_3_1_on stable_store db = task_3_1 db"
  by (simp add: task_3_1_on_def task_3_1_def run_on_stable) (simp add: stable_store_def)

lemma stable_store_ok: "store_ok stable_store"
  by (simp add: store_ok_def stable_store_def)

lemma reversing_store_ok: "store_ok reversing_store"
  by (simp add: store_ok_def reversing_store_def)

lemma backward_store_ok: "store_ok backward_store"
  by (simp add: store_ok_def backward_store_def)

lemma store_free_to_lookup: "store_free stages_to_lookup"
  by (simp add: stages_to_lookup_def stages_before_lookup_def stages_to_instances_def
      stages_to_questions_def lookup_criteria_def lookup_pipeline_def)

lemma pipeline_from_lookup:
  "pipeline = stages_to_lookup @ [group_answers, Unwind [''answers''], Sort result_keys]"
  by (simp add: pipeline_def stages_to_lookup_def stages_before_lookup_def
      stages_after_lookup_def sort_result_def)

lemma mset_concat_map:
  assumes "mset xs = mset ys"
  shows "mset (concat (map h xs)) = mset (concat (map h ys))"
proof -
  have "mset (concat (map h zs)) = (\<Sum>z\<in>#mset zs. mset (h z))" for zs
    by (induction zs) simp_all
  with assms show ?thesis by simp
qed

lemma task_on_shape:
  "task_3_1_on s db =
     (case run_on s db [] stages_to_lookup (scan s (db ''opportunities'')) of
        Inl e \<Rightarrow> Inl e
      | Inr rows \<Rightarrow>
          (case run_pipeline db [] [group_answers] rows of
             Inl e \<Rightarrow> Inl e
           | Inr gs \<Rightarrow>
               Inr (sort_by s (sort_keys result_keys)
                      (concat (map (unwind_row [''answers'']) (emit s gs))))))"
  unfolding task_3_1_on_def pipeline_from_lookup run_on_append
  by (simp add: group_answers_def split: sum.splits)

lemma sorted_same_keys:
  fixes f :: "'a \<Rightarrow> 'k::linorder"
  assumes "mset xs = mset ys" and "sorted (map f xs)" and "sorted (map f ys)"
  shows "map f xs = map f ys"
proof -
  from assms(1) have "mset (map f xs) = mset (map f ys)" by simp
  from properties_for_sort [OF this assms(2)] properties_for_sort [OF refl assms(3)]
  show ?thesis by simp
qed

lemma same_keys_distinct:
  assumes "mset xs = mset ys" and "map f xs = map f ys" and "distinct (map f xs)"
  shows "xs = ys"
proof -
  from assms(1) have "set xs = set ys" by (rule mset_eq_setD)
  moreover from assms(3) have "inj_on f (set xs)" by (simp add: distinct_map)
  ultimately have "inj_on f (set xs \<union> set ys)" by simp
  from inj_on_map_eq_map [OF this] assms(2) show ?thesis by simp
qed

lemma ties_stable:
  "task_3_1_on stable_store db_ties =
     Inr [tie_row 5 ''five'' 50 True 1, tie_row 7 ''seven'' 50 True 2,
          tie_row 7 ''seven'' 8 False 2]"
  by code_simp

lemma ties_reversing:
  "task_3_1_on reversing_store db_ties =
     Inr [tie_row 5 ''five'' 50 True 1, tie_row 7 ''seven'' 8 False 2,
          tie_row 7 ''seven'' 50 True 2]"
  by code_simp

lemma ties_before_sort:
  "run_on reversing_store db_ties [] (butlast pipeline)
     (scan reversing_store (db_ties ''opportunities'')) =
     Inr [tie_row 7 ''seven'' 50 True 2, tie_row 7 ''seven'' 8 False 2,
          tie_row 5 ''five'' 50 True 1]"
  by code_simp

lemma texts_stable:
  "task_3_1_on stable_store db_texts =
     Inr [tie_row 7 ''seven'' 50 True 2, tie_row 7 ''seven'' 50 True 2]"
  by code_simp

lemma texts_backward:
  "task_3_1_on backward_store db_texts =
     Inr [tie_row 7 ''sept'' 50 True 2, tie_row 7 ''sept'' 50 True 2]"
  by code_simp

lemma tie_row_keys:
  "sort_keys result_keys (tie_row n txt ins sel cnt) =
     [[(15, 0, txt)], [(10, 7, [])], [(10, n, [])]]"
  by (simp add: sort_keys_def result_keys_def tie_row_def)

lemma row_le_plain:
  assumes "get_nested [''answer_text''] a = Some (VStr ta)"
    and "get_nested [''answers'', ''question_id''] a = Some (VNum qa)"
    and "get_nested [''answers'', ''answer_value''] a = Some (VNum va)"
    and "get_nested [''answer_text''] b = Some (VStr tb)"
    and "get_nested [''answers'', ''question_id''] b = Some (VNum qb)"
    and "get_nested [''answers'', ''answer_value''] b = Some (VNum vb)"
  shows "row_le a b = (ta < tb \<or> ta = tb \<and> (qa < qb \<or> qa = qb \<and> va \<le> vb))"
  using assms by (auto simp: row_le_def sort_key_of_def less_eq_prod_def less_prod_def)

lemma sort_enc_smallest: "sort_enc (VArr (x # xs)) = Min (set (map enc (x # xs)))"
  using Min.set_eq_fold [of "enc x" "map enc xs"] by simp

lemma sort_enc_order:
  "sort_enc (VArr []) < sort_enc VNull"
  "sort_enc VNull < sort_enc (VNum n)"
  "sort_enc (VNum n) < sort_enc (VStr t)"
  "(sort_enc (VNum n) \<le> sort_enc (VNum m)) = (n \<le> m)"
  "(sort_enc (VStr t) \<le> sort_enc (VStr u)) = (t \<le> u)"
  by (auto simp: less_eq_prod_def less_prod_def)

lemma over_stable: "task_3_1_on stable_store db_over = Inr out_over"
  by (simp add: task_3_1_stable task_db_over)

lemma over_keys_distinct: "distinct (map (sort_keys result_keys) out_over)"
  by (simp add: out_over_def group_row_def sort_keys_def result_keys_def)

section \<open>Expansion stages\<close>

text \<open>
  C6. An expansion stage handles its input rows one by one, in order. A row whose value at
  the path is an array yields exactly one row per element: the \<open>i\<close>-th output row is the
  input row with the \<open>i\<close>-th element in the array's place, so reading the path back from
  the output rows gives the array's elements, each once and in the array's order. A row
  whose value at the path is missing or the empty array yields no row.
\<close>

theorem unwind_one_row_per_element:
  "run_stage db env (Unwind p) rows = Inr (concat (map (unwind_row p) rows)) \<and>
   (get_nested p d = Some (VArr xs) \<longrightarrow>
      unwind_row p d = map (\<lambda>x. set_nested p x d) xs \<and>
      length (unwind_row p d) = length xs \<and>
      map (get_nested p) (unwind_row p d) = map Some xs) \<and>
   (get_nested p d = None \<longrightarrow> unwind_row p d = []) \<and>
   (get_nested p d = Some (VArr []) \<longrightarrow> unwind_row p d = [])"
  by (simp add: run_stage_def unwind_row_def get_set_nested)

theorem unwind_one_row_per_element_witness:
  "get_nested [''a'', ''b''] [(''a'', VDoc [(''b'', VArr [VNum 1, VNum 2, VNum 1])])]
     = Some (VArr [VNum 1, VNum 2, VNum 1]) \<and>
   map (get_nested [''a'', ''b''])
     (unwind_row [''a'', ''b''] [(''a'', VDoc [(''b'', VArr [VNum 1, VNum 2, VNum 1])])])
     = [Some (VNum 1), Some (VNum 2), Some (VNum 1)] \<and>
   get_nested [''a'', ''b''] [(''a'', VDoc [])] = None \<and>
   unwind_row [''a'', ''b''] [(''a'', VDoc [])] = [] \<and>
   get_nested [''a'', ''b''] [(''a'', VDoc [(''b'', VArr [])])] = Some (VArr []) \<and>
   unwind_row [''a'', ''b''] [(''a'', VDoc [(''b'', VArr [])])] = []"
  using unwind_one_row_per_element
    [of "(\<lambda>n. [])" "[]" "[''a'', ''b'']" "[]"
        "[(''a'', VDoc [(''b'', VArr [VNum 1, VNum 2, VNum 1])])]" "[VNum 1, VNum 2, VNum 1]"]
    unwind_one_row_per_element
    [of "(\<lambda>n. [])" "[]" "[''a'', ''b'']" "[]" "[(''a'', VDoc [])]" "[]"]
    unwind_one_row_per_element
    [of "(\<lambda>n. [])" "[]" "[''a'', ''b'']" "[]" "[(''a'', VDoc [(''b'', VArr [])])]" "[]"]
  by simp

section \<open>The field \<open>clientWinner\<close>\<close>

text \<open>
  C9. The rows that reach the \<open>$match\<close> after the expansions of answers and loop
  instances (the pipeline never fails before it) have no top-level field
  \<open>clientWinner\<close>, the first \<open>$project\<close> having dropped it: none of them matches the
  third branch of the \<open>$or\<close>, and the stage keeps the same rows as the \<open>$match\<close> with
  the first two branches only.
\<close>

theorem client_winner_branch_dead:
  "\<exists>rows. run_pipeline db [] stages_to_instances (db ''opportunities'') = Inr rows \<and>
      (\<forall>r\<in>set rows. \<not> matches branch_client_winner r) \<and>
      run_stage db [] (Match match_instances) rows =
      run_stage db [] (Match [QOr [branch_loop_instance, branch_loop_text]]) rows"
proof -
  obtain rows
    where rows: "run_pipeline db [] stages_to_instances (db ''opportunities'') = Inr rows"
      and absent: "\<forall>r\<in>set rows. map_of r ''clientWinner'' = None"
    using to_instances_rows by blast
  have "filter (matches match_instances) rows =
        filter (matches [QOr [branch_loop_instance, branch_loop_text]]) rows"
    using absent by (intro filter_cong) (auto simp: match_instances_two_branches)
  then show ?thesis
    using rows absent by (auto simp: run_stage_def client_winner_absent_no_match)
qed

theorem client_winner_branch_dead_witness:
  "run_pipeline db_over [] stages_to_instances (db_over ''opportunities'') = Inr rows_over \<and>
   rows_over = [instance_row 5 ''five'', instance_row 10000 ''huge''] \<and>
   \<not> matches branch_client_winner (instance_row 5 ''five'') \<and>
   \<not> matches branch_client_winner (instance_row 10000 ''huge'')"
  using client_winner_branch_dead [of db_over] rows_db_over
  by (auto simp: rows_over_def)

text \<open>
  C10. Every row the second \<open>$project\<close> produces (the pipeline never fails up to it) has
  \<open>competitorWinner\<close> false: the stage's input rows have no \<open>clientWinner\<close>, so the
  first operand of the \<open>$and\<close> is false whatever the row's other fields are.
\<close>

theorem competitor_winner_false:
  "\<exists>rows. run_pipeline db []
             (stages_to_instances @ [Match match_instances, Project project_computed])
             (db ''opportunities'') = Inr rows \<and>
      (\<forall>r\<in>set rows. map_of r ''competitorWinner'' = Some (VBool False))"
proof -
  obtain rows0
    where rows0: "run_pipeline db [] stages_to_instances (db ''opportunities'') = Inr rows0"
      and absent: "\<forall>r\<in>set rows0. map_of r ''clientWinner'' = None"
    using to_instances_rows by blast
  define ins where "ins = filter (matches match_instances) rows0"
  define f where "f = (\<lambda>d. SOME r. project_row [] project_computed d = Inr r \<and>
             map_of r ''competitorWinner'' = Some (VBool False))"
  have f: "project_row [] project_computed d = Inr (f d) \<and>
             map_of (f d) ''competitorWinner'' = Some (VBool False)" if "d \<in> set ins" for d
  proof -
    from that absent have "map_of d ''clientWinner'' = None" by (simp add: ins_def)
    from someI_ex [OF project_computed_row [OF this, of "[]"]] show ?thesis
      by (simp add: f_def)
  qed
  have "list_all2 (\<lambda>x y. project_row [] project_computed x = Inr y) ins (map f ins)"
    using f by (simp add: list_all2_conv_all_nth)
  then have "map_err (project_row [] project_computed) ins = Inr (map f ins)"
    by (rule map_err_Inr_I)
  then show ?thesis
    using rows0 f by (auto simp: run_pipeline_append ins_def)
qed

theorem competitor_winner_false_witness:
  "run_pipeline db_over []
     (stages_to_instances @ [Match match_instances, Project project_computed])
     (db_over ''opportunities'')
   = Inr [projected_row 5 ''five'', projected_row 10000 ''huge''] \<and>
   map_of (projected_row 5 ''five'') ''competitorWinner'' = Some (VBool False) \<and>
   map_of (projected_row 10000 ''huge'') ''competitorWinner'' = Some (VBool False)"
  using competitor_winner_false [of db_over] projected_db_over
  by auto

section \<open>The correlated lookup\<close>




section \<open>The ceiling\<close>

text \<open>
  C2, as stated, fails on the database \<open>db_pair\<close>, whose question has the answers 1 and
  2, both below the ceiling 9000: the filters return the row of the answer 1 too, which is
  not the maximum.
\<close>

theorem non_maximal_row_kept_counterexample:
  "run_pipeline db_pair [] (stages_to_instances @ [Match match_instances])
     (db_pair ''opportunities'')
     = Inr [instance_row 1 ''one'', instance_row 2 ''two''] \<and>
   get_nested answer_value_path (instance_row 1 ''one'') = Some (VNum 1) \<and>
   get_nested answer_value_path (instance_row 2 ''two'') = Some (VNum 2) \<and>
   (1::int) < 2 \<and> (2::int) < 9000"
  using rows_db_pair by (simp add: instance_row_def answer_value_path_def)

text \<open>
  C2, amended. For a question row with the answers \<open>as\<close> and the ceiling 9000, the
  \<open>$match\<close> on questions keeps the row only if at least one answer has a value below
  the ceiling; when every value is at or above the ceiling, null or missing, the row is
  dropped and no row of the group is returned. A row that is kept goes on with all its
  answers, one row per answer in the order of the array, whatever their values: no
  maximum is selected.
\<close>

theorem question_filter_keeps_all_answers:
  assumes "get_nested answers_path d = Some (VArr as)"
  shows "(matches match_questions d \<longrightarrow>
            list_ex (\<lambda>a. below_ceiling 9000 (value_of_answer a)) as) \<and>
         (\<not> list_ex (\<lambda>a. below_ceiling 9000 (value_of_answer a)) as \<longrightarrow>
            run_pipeline db env [Match match_questions, Unwind answers_path] [d] = Inr []) \<and>
         (matches match_questions d \<longrightarrow>
            run_pipeline db env [Match match_questions, Unwind answers_path] [d]
              = Inr (map (\<lambda>a. set_nested answers_path a d) as))"
proof -
  have lt: "list_ex (\<lambda>a. below_ceiling 9000 (value_of_answer a)) as"
    if "matches match_questions d"
    using match_questions_lt [OF that] qvals_answer_values [OF assms] lt_answers [of 9000 as]
    by simp
  then show ?thesis using assms by (auto simp: unwind_row_def)
qed

theorem question_filter_keeps_all_answers_witness:
  "get_nested answers_path
     (question_row [answer_of 1 ''one'' instance_50, answer_of 2 ''two'' instance_50])
     = Some (VArr [answer_of 1 ''one'' instance_50, answer_of 2 ''two'' instance_50]) \<and>
   matches match_questions
     (question_row [answer_of 1 ''one'' instance_50, answer_of 2 ''two'' instance_50]) \<and>
   run_pipeline (\<lambda>n. []) [] [Match match_questions, Unwind answers_path]
     [question_row [answer_of 1 ''one'' instance_50, answer_of 2 ''two'' instance_50]]
     = Inr [set_nested answers_path (answer_of 1 ''one'' instance_50)
              (question_row [answer_of 1 ''one'' instance_50, answer_of 2 ''two'' instance_50]),
            set_nested answers_path (answer_of 2 ''two'' instance_50)
              (question_row [answer_of 1 ''one'' instance_50, answer_of 2 ''two'' instance_50])] \<and>
   \<not> list_ex (\<lambda>a. below_ceiling 9000 (value_of_answer a))
       [answer_of 9000 ''nine'' instance_50, answer_of 10000 ''huge'' instance_50] \<and>
   run_pipeline (\<lambda>n. []) [] [Match match_questions, Unwind answers_path]
     [question_row [answer_of 9000 ''nine'' instance_50, answer_of 10000 ''huge'' instance_50]]
     = Inr []"
proof -
  have a: "get_nested answers_path (question_row xs) = Some (VArr xs)" for xs
    by (simp add: answers_path_def question_row_def)
  from question_filter_keeps_all_answers
         [OF a [of "[answer_of 1 ''one'' instance_50, answer_of 2 ''two'' instance_50]"],
          of "\<lambda>n. []" "[]"] pair_matches
  have kept: "run_pipeline (\<lambda>n. []) [] [Match match_questions, Unwind answers_path]
     [question_row [answer_of 1 ''one'' instance_50, answer_of 2 ''two'' instance_50]]
     = Inr (map (\<lambda>x. set_nested answers_path x
                (question_row [answer_of 1 ''one'' instance_50,
                               answer_of 2 ''two'' instance_50]))
              [answer_of 1 ''one'' instance_50, answer_of 2 ''two'' instance_50])"
    by blast
  from question_filter_keeps_all_answers
         [OF a [of "[answer_of 9000 ''nine'' instance_50,
                     answer_of 10000 ''huge'' instance_50]"],
          of "\<lambda>n. []" "[]"] none_below
  have dropped: "run_pipeline (\<lambda>n. []) [] [Match match_questions, Unwind answers_path]
     [question_row [answer_of 9000 ''nine'' instance_50, answer_of 10000 ''huge'' instance_50]]
     = Inr []"
    by blast
  show ?thesis
    using a pair_matches none_below kept dropped by simp
qed

text \<open>
  C1, as stated, fails on the database \<open>db_over\<close>: its question has an answer 5, so it
  passes the filter, and its other answer, 10000, gives a group of its own.
\<close>

theorem group_above_ceiling_counterexample:
  "task_3_1 db_over = Inr [group_row 5 ''five'' [], group_row 10000 ''huge'' []] \<and>
   map_of (group_row 10000 ''huge'' []) ''answer_value'' = Some (VNum 10000) \<and>
   \<not> (10000::int) < 9000"
  using task_db_over by (simp add: out_over_def group_row_def)

text \<open>
  C1, amended. Every returned group stems from a question that passed the \<open>$match\<close> on
  questions, and every such question has at least one answer whose value is below 9000; the
  group's \<open>answer_value\<close> is the value of one of that question's answers (null when the
  answer has none), not necessarily of an answer below the ceiling.
\<close>

theorem group_value_from_kept_question:
  assumes "task_3_1 db = Inr out"
  shows "\<exists>qs. run_pipeline db [] stages_to_questions (db ''opportunities'') = Inr qs \<and>
     (\<forall>g\<in>set out. \<exists>q\<in>set qs.
        list_ex (\<lambda>a. below_ceiling 9000 (value_of_answer a)) (answers_of q) \<and>
        (\<exists>a\<in>set (answers_of q).
           map_of g ''answer_value'' = Some (or_null (value_of_answer a))))"
proof -
  obtain qs where qs: "run_pipeline db [] stages_to_questions (db ''opportunities'') = Inr qs"
    and kept: "\<forall>q\<in>set qs. matches match_questions q"
    using to_questions_rows by blast
  define r8s where "r8s = filter (matches match_instances)
     (concat (map (unwind_row instances_path) (concat (map (unwind_row answers_path) qs))))"
  from assms qs obtain r9s gs
    where r9s: "map_err (project_row [] project_computed) r8s = Inr r9s"
      and gs: "run_pipeline db [] [group_answers] (map (attach_criteria db) r9s) = Inr gs"
      and out: "out = sort_rows result_keys (concat (map (unwind_row [''answers'']) gs))"
    unfolding task_3_1_def pipeline_after_questions run_pipeline_append lookup_criteria_rows
    by (auto simp: r8s_def split: sum.splits)
  have "\<exists>q\<in>set qs.
        list_ex (\<lambda>a. below_ceiling 9000 (value_of_answer a)) (answers_of q) \<and>
        (\<exists>a\<in>set (answers_of q).
           map_of g ''answer_value'' = Some (or_null (value_of_answer a)))"
    if "g \<in> set out" for g
  proof -
    from that out obtain g0 where g0: "g0 \<in> set gs" and "g \<in> set (unwind_row [''answers''] g0)"
      by (auto simp: sort_rows_def)
    from unwind_row_other [OF this(2), of "''answer_value''"]
    have gv: "map_of g ''answer_value'' = map_of g0 ''answer_value''" by simp
    from group_answers_value [OF gs g0] obtain r9
      where r9: "r9 \<in> set r9s"
        and g0v: "map_of g0 ''answer_value''
                   = Some (or_null (epath answer_value_path (attach_criteria db r9)))"
      by auto
    from list_all2_right [OF map_err_Inr_D [OF r9s] r9] obtain r8
      where r8: "r8 \<in> set r8s" and p: "project_row [] project_computed r8 = Inr r9"
      by blast
    from r8 obtain q r6 where q: "q \<in> set qs" and r6: "r6 \<in> set (unwind_row answers_path q)"
      and r7: "r8 \<in> set (unwind_row instances_path r6)"
      by (auto simp: r8s_def)
    from instance_row_answer [OF r7] obtain f6 da
      where f6: "get_nested answers_path r6 = Some (VDoc f6)"
        and da: "get_nested answers_path r8 = Some (VDoc da)"
        and same: "map_of da ''primary_answer_value'' = map_of f6 ''primary_answer_value''"
      by blast
    from answer_row_answer [OF r6 f6] have a: "VDoc f6 \<in> set (answers_of q)" .
    from project_computed_answer [OF p da]
    have "get_nested answers_path (attach_criteria db r9) = Some (VDoc da)"
      by (simp add: attach_criteria_answer)
    from epath_answer_value [OF this] same g0v gv
    have "map_of g ''answer_value'' = Some (or_null (value_of_answer (VDoc f6)))" by simp
    moreover from kept q have "matches match_questions q" by blast
    from kept_question_below [OF this a]
    have "list_ex (\<lambda>a. below_ceiling 9000 (value_of_answer a)) (answers_of q)" .
    ultimately show ?thesis using q a by blast
  qed
  with qs show ?thesis by blast
qed

theorem group_value_from_kept_question_witness:
  "task_3_1 db_over = Inr [group_row 5 ''five'' [], group_row 10000 ''huge'' []] \<and>
   run_pipeline db_over [] stages_to_questions (db_over ''opportunities'')
     = Inr [question_row [answer_of 5 ''five'' instance_50,
                          answer_of 10000 ''huge'' instance_50]] \<and>
   list_ex (\<lambda>a. below_ceiling 9000 (value_of_answer a))
     [answer_of 5 ''five'' instance_50, answer_of 10000 ''huge'' instance_50] \<and>
   map_of (group_row 10000 ''huge'' []) ''answer_value''
     = Some (or_null (value_of_answer (answer_of 10000 ''huge'' instance_50)))"
  using group_value_from_kept_question [OF task_db_over] questions_db_over task_db_over
  by (auto simp: out_over_def answers_of_question_row group_row_def answer_of_def)

section \<open>The allow-list\<close>

text \<open>
  C3. The allow-list leaves out the top-level field \<open>clientWinner\<close>, which the third
  \<open>$match\<close> and the second \<open>$project\<close> read. On the database \<open>db_winner\<close> the
  pipeline returns nothing, and the pipeline without the allow-list returns a row.
\<close>

theorem pruning_changes_result:
  "task_3_1 db_winner = Inr [] \<and>
   run_pipeline db_winner [] pipeline_unpruned (db_winner ''opportunities'') = Inr [winner_row] \<and>
   task_3_1 db_winner \<noteq> run_pipeline db_winner [] pipeline_unpruned (db_winner ''opportunities'')"
  using task_db_winner unpruned_db_winner by simp

section \<open>The order of the result\<close>

text \<open>
  C7, as stated, fails on the database \<open>db_ties\<close> with a store that sorts in ascending
  order of the key and puts rows with equal keys in the reverse of their input order. The
  two rows of the answer 7 have the same three keys and reach the sort with the loop
  instance 50 first; the result has the loop instance 8 first.
\<close>

theorem ties_reversed_counterexample:
  "store_ok reversing_store \<and>
   run_on reversing_store db_ties [] (butlast pipeline)
     (scan reversing_store (db_ties ''opportunities'')) =
     Inr [tie_row 7 ''seven'' 50 True 2, tie_row 7 ''seven'' 8 False 2,
          tie_row 5 ''five'' 50 True 1] \<and>
   task_3_1_on reversing_store db_ties =
     Inr [tie_row 5 ''five'' 50 True 1, tie_row 7 ''seven'' 8 False 2,
          tie_row 7 ''seven'' 50 True 2] \<and>
   sort_keys result_keys (tie_row 7 ''seven'' 50 True 2)
     = sort_keys result_keys (tie_row 7 ''seven'' 8 False 2) \<and>
   tie_row 7 ''seven'' 50 True 2 \<noteq> tie_row 7 ''seven'' 8 False 2"
  using reversing_store_ok ties_before_sort ties_reversing
  by (simp add: tie_row_keys) (simp add: tie_row_def)

text \<open>
  C7, amended. On every store that keeps its promise, the result of \<open>task_3_1\<close> is in
  ascending order of \<open>answer_text\<close>, then \<open>answers.question_id\<close>, then
  \<open>answers.answer_value\<close>, and it is a rearrangement of the rows that reach the sort.
  The order of the rows that have the same three keys is the store's choice: nothing is
  promised of it.
\<close>

theorem result_sorted:
  assumes "store_ok s" and "task_3_1_on s db = Inr out"
  shows "sorted_wrt row_le out \<and>
    (\<exists>rows. run_on s db [] (butlast pipeline) (scan s (db ''opportunities'')) = Inr rows \<and>
       mset out = mset rows)"
proof -
  from assms(2)
  have "run_on s db [] (butlast pipeline @ [Sort result_keys]) (scan s (db ''opportunities''))
          = Inr out"
    using pipeline_split by (simp add: task_3_1_on_def)
  then obtain rows
    where rows: "run_on s db [] (butlast pipeline) (scan s (db ''opportunities'')) = Inr rows"
      and out: "out = sort_by s (sort_keys result_keys) rows"
    by (auto simp: run_on_append split: sum.splits)
  from assms(1) have "sorted (map (sort_keys result_keys) out)" and "mset out = mset rows"
    unfolding out store_ok_def by blast+
  then have "sorted_wrt row_le out" "mset out = mset rows"
    by (simp_all add: sorted_map row_le_keys[abs_def])
  with rows show ?thesis by blast
qed

theorem result_sorted_witness:
  "store_ok reversing_store \<and>
   task_3_1_on reversing_store db_ties =
     Inr [tie_row 5 ''five'' 50 True 1, tie_row 7 ''seven'' 8 False 2,
          tie_row 7 ''seven'' 50 True 2] \<and>
   sorted_wrt row_le [tie_row 5 ''five'' 50 True 1, tie_row 7 ''seven'' 8 False 2,
                      tie_row 7 ''seven'' 50 True 2] \<and>
   run_on reversing_store db_ties [] (butlast pipeline)
     (scan reversing_store (db_ties ''opportunities'')) =
     Inr [tie_row 7 ''seven'' 50 True 2, tie_row 7 ''seven'' 8 False 2,
          tie_row 5 ''five'' 50 True 1] \<and>
   mset [tie_row 5 ''five'' 50 True 1, tie_row 7 ''seven'' 8 False 2,
         tie_row 7 ''seven'' 50 True 2]
     = mset [tie_row 7 ''seven'' 50 True 2, tie_row 7 ''seven'' 8 False 2,
             tie_row 5 ''five'' 50 True 1] \<and>
   ''five'' < ''seven''"
  using result_sorted [OF reversing_store_ok ties_reversing] reversing_store_ok
    ties_reversing ties_before_sort
  by auto

section \<open>Two runs on one snapshot\<close>

text \<open>
  C8, as stated, fails. On the database \<open>db_ties\<close> two stores that keep their promise
  and read the collections in the same order return the two rows of the answer 7 in a
  different order. On the database \<open>db_texts\<close> two stores that keep their promise and
  read the opportunities in a different order return a different \<open>answer_text\<close>: the
  value that \<open>$first\<close> takes is the one of the row that is read first.
\<close>

theorem runs_differ_counterexample:
  "store_ok stable_store \<and> store_ok reversing_store \<and> store_ok backward_store \<and>
   task_3_1_on stable_store db_ties =
     Inr [tie_row 5 ''five'' 50 True 1, tie_row 7 ''seven'' 50 True 2,
          tie_row 7 ''seven'' 8 False 2] \<and>
   task_3_1_on reversing_store db_ties =
     Inr [tie_row 5 ''five'' 50 True 1, tie_row 7 ''seven'' 8 False 2,
          tie_row 7 ''seven'' 50 True 2] \<and>
   task_3_1_on stable_store db_ties \<noteq> task_3_1_on reversing_store db_ties \<and>
   task_3_1_on stable_store db_texts =
     Inr [tie_row 7 ''seven'' 50 True 2, tie_row 7 ''seven'' 50 True 2] \<and>
   task_3_1_on backward_store db_texts =
     Inr [tie_row 7 ''sept'' 50 True 2, tie_row 7 ''sept'' 50 True 2] \<and>
   task_3_1_on stable_store db_texts \<noteq> task_3_1_on backward_store db_texts"
  using stable_store_ok reversing_store_ok backward_store_ok
  by (simp add: ties_stable ties_reversing texts_stable texts_backward) (simp add: tie_row_def)

text \<open>
  C8, amended. Two runs of \<open>task_3_1\<close> on one snapshot, by stores that keep their
  promise and read every collection in the same order, fail together or return the same
  rows, each in ascending order of the three keys, with the same keys at every position;
  they return the same sequence when no two rows have the same three keys. Rows that have
  the same three keys may come in a different order.
\<close>

theorem runs_agree_up_to_ties:
  assumes "store_ok s1" and "store_ok s2" and "\<forall>c. scan s1 (db c) = scan s2 (db c)"
  shows "case task_3_1_on s1 db of
           Inl e \<Rightarrow> task_3_1_on s2 db = Inl e
         | Inr out1 \<Rightarrow>
             (\<exists>out2. task_3_1_on s2 db = Inr out2 \<and> mset out2 = mset out1 \<and>
                sorted_wrt row_le out1 \<and> sorted_wrt row_le out2 \<and>
                map (sort_keys result_keys) out2 = map (sort_keys result_keys) out1 \<and>
                (distinct (map (sort_keys result_keys) out1) \<longrightarrow> out2 = out1))"
proof -
  let ?h = "unwind_row [''answers'']"
  let ?k = "sort_keys result_keys"
  let ?out = "\<lambda>s gs. sort_by s ?k (concat (map ?h (emit s gs)))"
  have pre: "run_on s1 db [] stages_to_lookup (scan s1 (db ''opportunities''))
           = run_on s2 db [] stages_to_lookup (scan s2 (db ''opportunities''))"
    using run_on_same_scan [OF assms(3) store_free_to_lookup] assms(3) by simp
  have props: "mset (?out s gs) = mset (concat (map ?h gs)) \<and> sorted (map ?k (?out s gs))"
    if "store_ok s" for s gs
  proof -
    from that have "mset (emit s gs) = mset gs" by (simp add: store_ok_def)
    then have "mset (concat (map ?h (emit s gs))) = mset (concat (map ?h gs))"
      by (rule mset_concat_map)
    moreover from that have "mset (?out s gs) = mset (concat (map ?h (emit s gs)))"
      and "sorted (map ?k (?out s gs))"
      unfolding store_ok_def by blast+
    ultimately show ?thesis by simp
  qed
  show ?thesis
  proof (cases "run_on s2 db [] stages_to_lookup (scan s2 (db ''opportunities''))")
    case (Inl e)
    with pre show ?thesis by (simp add: task_on_shape)
  next
    case rows: (Inr rows)
    show ?thesis
    proof (cases "run_pipeline db [] [group_answers] rows")
      case (Inl e)
      with pre rows show ?thesis by (simp add: task_on_shape)
    next
      case (Inr gs)
      have out: "task_3_1_on s1 db = Inr (?out s1 gs)" "task_3_1_on s2 db = Inr (?out s2 gs)"
        using pre rows Inr by (simp_all add: task_on_shape)
      from props [OF assms(1), of gs] props [OF assms(2), of gs]
      have m: "mset (?out s2 gs) = mset (?out s1 gs)"
        and s1: "sorted (map ?k (?out s1 gs))" and s2: "sorted (map ?k (?out s2 gs))"
        by simp_all
      from sorted_same_keys [OF m s2 s1]
      have keys: "map ?k (?out s2 gs) = map ?k (?out s1 gs)" .
      have same: "?out s2 gs = ?out s1 gs" if "distinct (map ?k (?out s1 gs))"
        using same_keys_distinct [OF m keys] that keys by simp
      from s1 have w1: "sorted_wrt row_le (?out s1 gs)"
        by (simp add: sorted_map row_le_keys[abs_def])
      from s2 have w2: "sorted_wrt row_le (?out s2 gs)"
        by (simp add: sorted_map row_le_keys[abs_def])
      from m w1 w2 keys same show ?thesis
        unfolding out by simp
    qed
  qed
qed

theorem runs_agree_up_to_ties_witness:
  "store_ok stable_store \<and> store_ok reversing_store \<and>
   scan stable_store = scan reversing_store \<and>
   task_3_1_on stable_store db_ties =
     Inr [tie_row 5 ''five'' 50 True 1, tie_row 7 ''seven'' 50 True 2,
          tie_row 7 ''seven'' 8 False 2] \<and>
   task_3_1_on reversing_store db_ties =
     Inr [tie_row 5 ''five'' 50 True 1, tie_row 7 ''seven'' 8 False 2,
          tie_row 7 ''seven'' 50 True 2] \<and>
   mset [tie_row 5 ''five'' 50 True 1, tie_row 7 ''seven'' 8 False 2,
         tie_row 7 ''seven'' 50 True 2]
     = mset [tie_row 5 ''five'' 50 True 1, tie_row 7 ''seven'' 50 True 2,
             tie_row 7 ''seven'' 8 False 2] \<and>
   sorted_wrt row_le [tie_row 5 ''five'' 50 True 1, tie_row 7 ''seven'' 50 True 2,
                      tie_row 7 ''seven'' 8 False 2] \<and>
   sorted_wrt row_le [tie_row 5 ''five'' 50 True 1, tie_row 7 ''seven'' 8 False 2,
                      tie_row 7 ''seven'' 50 True 2] \<and>
   task_3_1_on stable_store db_over = Inr out_over \<and>
   distinct (map (sort_keys result_keys) out_over) \<and>
   task_3_1_on reversing_store db_over = Inr out_over"
proof -
  have scans: "scan stable_store = scan reversing_store"
    by (simp add: stable_store_def reversing_store_def)
  then have same: "\<forall>c. scan stable_store (db c) = scan reversing_store (db c)" for db
    by simp
  from runs_agree_up_to_ties [OF stable_store_ok reversing_store_ok same, of db_ties]
  have ties: "mset [tie_row 5 ''five'' 50 True 1, tie_row 7 ''seven'' 8 False 2,
         tie_row 7 ''seven'' 50 True 2]
     = mset [tie_row 5 ''five'' 50 True 1, tie_row 7 ''seven'' 50 True 2,
             tie_row 7 ''seven'' 8 False 2] \<and>
   sorted_wrt row_le [tie_row 5 ''five'' 50 True 1, tie_row 7 ''seven'' 50 True 2,
                      tie_row 7 ''seven'' 8 False 2] \<and>
   sorted_wrt row_le [tie_row 5 ''five'' 50 True 1, tie_row 7 ''seven'' 8 False 2,
                      tie_row 7 ''seven'' 50 True 2]"
    unfolding ties_stable ties_reversing by simp
  from runs_agree_up_to_ties [OF stable_store_ok reversing_store_ok same, of db_over]
    over_keys_distinct
  have over: "task_3_1_on reversing_store db_over = Inr out_over"
    unfolding over_stable by auto
  from ties over scans stable_store_ok reversing_store_ok ties_stable ties_reversing
    over_stable over_keys_distinct
  show ?thesis by blast
qed

end
